theory Spec2Isabelle
  imports Main "HOL-Library.AList"
begin

section \<open>Scraper groups (lib/promscrape/scraper.go)\<close>

subsection \<open>Data\<close>

text \<open>
  \<open>prompbmarshal.Label\<close> is a name and a value. A Go slice value is either \<open>nil\<close> or a
  (possibly empty) sequence; the two are told apart by \<open>!= nil\<close>, so a slice is an
  optional list with \<open>None\<close> for \<open>nil\<close>.
\<close>

type_synonym Label = "string \<times> string"

type_synonym 'a slice = "'a list option"

text \<open>
  \<open>ScrapeWork\<close> is declared outside scraper.go; the fields used by scraper.go are kept.
  Its method \<open>key()\<close> is declared outside scraper.go as well and is a parameter \<open>key\<close> of
  every function below.
\<close>

record ScrapeWork =
  ScrapeURL :: string
  Labels :: "Label list"
  OriginalLabels :: "Label slice"

text \<open>
  A \<open>scraper\<close> holds the copied \<open>ScrapeWork\<close> (\<open>sc.sw.Config\<close>), the group name
  (\<open>sc.sw.ScrapeGroup\<close>) and its stop channel. Channels are identified by the number handed
  out by \<open>make\<close>; \<open>newScraper\<close> makes one channel per scraper and a scraper is never changed
  after its creation, so the value identifies the instance.
\<close>

record scraper =
  sw_Config :: ScrapeWork
  sw_ScrapeGroup :: string
  stopCh :: nat

text \<open>The body of the goroutine started for a scraper, statement by statement.\<close>

datatype action =
    Run_sw nat
  | TsmUnregister ScrapeWork
  | WgDone

text \<open>
  The effects of the group on the rest of the process, in program order: the error log line
  about a duplicate target (the target, the original labels of the first and of the second
  target), \<open>droppedTargetsMap.Register\<close>, the \<open>go\<close> statement (the scraper and the body of the
  goroutine), \<open>tsmGlobal.Register\<close>, \<open>close\<close> of a stop channel, the summary log line (group
  name, additions, deletions, size of the map) and the return of \<open>sg.wg.Wait\<close>.
\<close>

datatype event =
    Errorf_duplicate ScrapeWork "Label slice" "Label slice"
  | DroppedRegister "Label slice"
  | Go_worker scraper "action list"
  | TsmRegister ScrapeWork
  | Close nat
  | Infof_summary string nat nat nat
  | WgWait

datatype panic = AssignNilMap | CloseClosedChannel

text \<open>
  The group: \<open>sg_m\<close> is the map \<open>sg.m\<close> (\<open>None\<close> is the nil map), kept as an association
  list because the second loop of \<open>update\<close> and \<open>stop\<close> range over it. Go leaves the order of
  that iteration open; the list order stands for one such order. \<open>changesCount\<close> is the value
  of the counter \<open>vm_promscrape_config_changes_total\<close> of the group, \<open>nextCh\<close> the number of the
  next channel that \<open>make\<close> hands out, \<open>trace\<close> the effects so far. The fields \<open>pushData\<close>,
  \<open>wg\<close> and \<open>mLock\<close> and the callbacks that \<open>newScraper\<close> takes from \<open>newClient\<close> are left out.
\<close>

record scraperGroup =
  sg_name :: string
  sg_m :: "(string \<times> scraper) list option"
  changesCount :: nat
  nextCh :: nat
  trace :: "event list"

type_synonym 'a result = "(panic \<times> scraperGroup) + 'a"

definition newScraperGroup :: "string \<Rightarrow> scraperGroup" where
  "newScraperGroup name =
     \<lparr>sg_name = name, sg_m = Some [], changesCount = 0, nextCh = 0, trace = []\<rparr>"

definition newScraper :: "ScrapeWork \<Rightarrow> string \<Rightarrow> nat \<Rightarrow> scraper" where
  "newScraper sw grp ch = \<lparr>sw_Config = sw, sw_ScrapeGroup = grp, stopCh = ch\<rparr>"

definition worker_body :: "scraper \<Rightarrow> ScrapeWork \<Rightarrow> action list" where
  "worker_body sc sw = [Run_sw (stopCh sc), TsmUnregister sw, WgDone]"

text \<open>Reading \<open>sg.m[key]\<close>: a nil map and a missing key both give nil.\<close>

definition m_get :: "scraperGroup \<Rightarrow> string \<Rightarrow> scraper option" where
  "m_get sg k = (case sg_m sg of None \<Rightarrow> None | Some mp \<Rightarrow> map_of mp k)"

definition m_entries :: "scraperGroup \<Rightarrow> (string \<times> scraper) list" where
  "m_entries sg = (case sg_m sg of None \<Rightarrow> [] | Some mp \<Rightarrow> mp)"

text \<open>\<open>close(ch)\<close> panics on a channel that is closed already.\<close>

definition close_ch :: "nat \<Rightarrow> scraperGroup \<Rightarrow> scraperGroup result" where
  "close_ch c sg =
     (if Close c \<in> set (trace sg) then Inl (CloseClosedChannel, sg)
      else Inr (sg\<lparr>trace := trace sg @ [Close c]\<rparr>))"

subsection \<open>update\<close>

text \<open>
  \<open>swsMap\<close> maps a key to the original labels of the entry that set it; reading it gives
  nil for a missing key and for a key whose stored slice is nil.
\<close>

type_synonym swsMap = "string \<rightharpoonup> Label slice"

definition swsMap_get :: "swsMap \<Rightarrow> string \<Rightarrow> Label slice" where
  "swsMap_get mp k = (case mp k of None \<Rightarrow> None | Some v \<Rightarrow> v)"

text \<open>
  One iteration of the first loop of \<open>update\<close>. \<open>suppress\<close> is the value of the flag
  \<open>-promscrape.suppressDuplicateScrapeTargetErrors\<close>. The mutex \<open>sg.mLock\<close> is left out: the
  calls on a group come one after the other from the goroutine of its \<open>scrapeConfig\<close>.
\<close>

definition update_step ::
  "(ScrapeWork \<Rightarrow> string) \<Rightarrow> bool \<Rightarrow> ScrapeWork \<Rightarrow> swsMap \<times> nat \<times> scraperGroup
     \<Rightarrow> (swsMap \<times> nat \<times> scraperGroup) result" where
  "update_step key suppress sw = (\<lambda>(swsMap, additionsCount, sg).
     let k = key sw; originalLabels = swsMap_get swsMap k in
     if originalLabels \<noteq> None then
       Inr (swsMap, additionsCount,
            sg\<lparr>trace := trace sg
                  @ (if \<not> suppress then [Errorf_duplicate sw originalLabels (OriginalLabels sw)] else [])
                  @ [DroppedRegister (OriginalLabels sw)]\<rparr>)
     else
       let swsMap' = swsMap(k \<mapsto> OriginalLabels sw) in
       case m_get sg k of
         Some sc \<Rightarrow> Inr (swsMap', additionsCount, sg)
       | None \<Rightarrow>
           let sc = newScraper sw (sg_name sg) (nextCh sg);
               sg1 = sg\<lparr>nextCh := Suc (nextCh sg),
                        trace := trace sg @ [Go_worker sc (worker_body sc sw), TsmRegister sw]\<rparr>
           in case sg_m sg1 of
                None \<Rightarrow> Inl (AssignNilMap, sg1)
              | Some mp \<Rightarrow>
                  Inr (swsMap', Suc additionsCount, sg1\<lparr>sg_m := Some (AList.update k sc mp)\<rparr>))"

fun update_loop ::
  "(ScrapeWork \<Rightarrow> string) \<Rightarrow> bool \<Rightarrow> ScrapeWork list \<Rightarrow> swsMap \<times> nat \<times> scraperGroup
     \<Rightarrow> (swsMap \<times> nat \<times> scraperGroup) result" where
  "update_loop key suppress [] s = Inr s"
| "update_loop key suppress (sw # sws) s =
     (case update_step key suppress sw s of
        Inl e \<Rightarrow> Inl e
      | Inr s' \<Rightarrow> update_loop key suppress sws s')"

text \<open>One iteration of the second loop: stop a scraper whose key is missing in \<open>swsMap\<close>.\<close>

definition delete_step ::
  "swsMap \<Rightarrow> string \<times> scraper \<Rightarrow> nat \<times> scraperGroup \<Rightarrow> (nat \<times> scraperGroup) result" where
  "delete_step swsMap = (\<lambda>(k, sc) (deletionsCount, sg).
     if swsMap k = None then
       (case close_ch (stopCh sc) sg of
          Inl e \<Rightarrow> Inl e
        | Inr sg' \<Rightarrow>
            Inr (Suc deletionsCount, sg'\<lparr>sg_m := map_option (AList.delete k) (sg_m sg')\<rparr>))
     else Inr (deletionsCount, sg))"

fun delete_loop ::
  "swsMap \<Rightarrow> (string \<times> scraper) list \<Rightarrow> nat \<times> scraperGroup \<Rightarrow> (nat \<times> scraperGroup) result" where
  "delete_loop swsMap [] s = Inr s"
| "delete_loop swsMap (e # es) s =
     (case delete_step swsMap e s of
        Inl p \<Rightarrow> Inl p
      | Inr s' \<Rightarrow> delete_loop swsMap es s')"

text \<open>Both loops, giving the two counts and the group.\<close>

definition update_diff ::
  "(ScrapeWork \<Rightarrow> string) \<Rightarrow> bool \<Rightarrow> ScrapeWork list \<Rightarrow> scraperGroup
     \<Rightarrow> (nat \<times> nat \<times> scraperGroup) result" where
  "update_diff key suppress sws sg =
     (case update_loop key suppress sws (Map.empty, 0, sg) of
        Inl e \<Rightarrow> Inl e
      | Inr (swsMap, additionsCount, sg1) \<Rightarrow>
          (case delete_loop swsMap (m_entries sg1) (0, sg1) of
             Inl e \<Rightarrow> Inl e
           | Inr (deletionsCount, sg2) \<Rightarrow> Inr (additionsCount, deletionsCount, sg2)))"

definition report :: "nat \<times> nat \<times> scraperGroup \<Rightarrow> scraperGroup" where
  "report = (\<lambda>(additionsCount, deletionsCount, sg).
     if additionsCount > 0 \<or> deletionsCount > 0 then
       sg\<lparr>changesCount := changesCount sg + (additionsCount + deletionsCount),
          trace := trace sg
            @ [Infof_summary (sg_name sg) additionsCount deletionsCount (length (m_entries sg))]\<rparr>
     else sg)"

definition update ::
  "(ScrapeWork \<Rightarrow> string) \<Rightarrow> bool \<Rightarrow> ScrapeWork list \<Rightarrow> scraperGroup \<Rightarrow> scraperGroup result" where
  "update key suppress sws sg =
     (case update_diff key suppress sws sg of
        Inl e \<Rightarrow> Inl e
      | Inr r \<Rightarrow> Inr (report r))"

subsection \<open>stop\<close>

fun close_all :: "(string \<times> scraper) list \<Rightarrow> scraperGroup \<Rightarrow> scraperGroup result" where
  "close_all [] sg = Inr sg"
| "close_all ((k, sc) # es) sg =
     (case close_ch (stopCh sc) sg of
        Inl e \<Rightarrow> Inl e
      | Inr sg' \<Rightarrow> close_all es sg')"

text \<open>
  \<open>stop\<close> closes every stop channel, sets the map to nil and waits for the workers
  (\<open>sg.wg.Wait()\<close>); the result is the group once the wait has returned.
\<close>

definition stop :: "scraperGroup \<Rightarrow> scraperGroup result" where
  "stop sg =
     (case close_all (m_entries sg) sg of
        Inl e \<Rightarrow> Inl e
      | Inr sg' \<Rightarrow> Inr (sg'\<lparr>sg_m := None, trace := trace sg' @ [WgWait]\<rparr>))"

subsection \<open>Observing the group\<close>

text \<open>
  The scrapers alive after a trace of effects: those whose goroutine has been started and
  whose stop channel has not been closed since.
\<close>

definition apply_event :: "event \<Rightarrow> scraper list \<Rightarrow> scraper list" where
  "apply_event e live =
     (case e of
        Go_worker sc body \<Rightarrow> live @ [sc]
      | Close c \<Rightarrow> filter (\<lambda>sc. stopCh sc \<noteq> c) live
      | _ \<Rightarrow> live)"

definition live_after :: "event list \<Rightarrow> scraper list" where
  "live_after tr = foldl (\<lambda>live e. apply_event e live) [] tr"

definition key_of :: "(ScrapeWork \<Rightarrow> string) \<Rightarrow> scraper \<Rightarrow> string" where
  "key_of key sc = key (sw_Config sc)"

text \<open>At every instant of the trace, no two scrapers alive have the same key.\<close>

definition at_most_one :: "(ScrapeWork \<Rightarrow> string) \<Rightarrow> event list \<Rightarrow> bool" where
  "at_most_one key tr =
     (\<forall>n \<in> {0..length tr}. distinct (map (key_of key) (live_after (take n tr))))"

fun closed_chans :: "event list \<Rightarrow> nat list" where
  "closed_chans [] = []"
| "closed_chans (Close c # tr) = c # closed_chans tr"
| "closed_chans (e # tr) = closed_chans tr"

text \<open>
  The invariant of a group between two calls: the map has each key once and stores a scraper
  under its own key; its values are the scrapers alive; their channels are different, open and
  handed out already, as every closed channel is; and \<open>at_most_one\<close> holds of the trace.
\<close>

definition group_ok :: "(ScrapeWork \<Rightarrow> string) \<Rightarrow> scraperGroup \<Rightarrow> bool" where
  "group_ok key sg =
     (distinct (map fst (m_entries sg))
      \<and> (\<forall>e \<in> set (m_entries sg). key_of key (snd e) = fst e)
      \<and> set (live_after (trace sg)) = snd ` set (m_entries sg)
      \<and> distinct (map stopCh (live_after (trace sg)))
      \<and> (\<forall>sc \<in> set (live_after (trace sg)). stopCh sc < nextCh sg \<and> Close (stopCh sc) \<notin> set (trace sg))
      \<and> (\<forall>c \<in> set (closed_chans (trace sg)). c < nextCh sg)
      \<and> at_most_one key (trace sg))"

text \<open>The entries that the second loop of \<open>update\<close> stops: their key is missing in \<open>swsMap\<close>.\<close>

definition dead :: "swsMap \<Rightarrow> (string \<times> scraper) list \<Rightarrow> (string \<times> scraper) list" where
  "dead M es = filter (\<lambda>e. M (fst e) = None) es"

text \<open>
  The calls made on a group by its owner, \<open>scrapeConfig.run\<close>: any number of \<open>update\<close>s and
  \<open>stop\<close>. A sequence of calls ends at the first panic.
\<close>

datatype op = Update "ScrapeWork list" | Stop

fun run_ops ::
  "(ScrapeWork \<Rightarrow> string) \<Rightarrow> bool \<Rightarrow> op list \<Rightarrow> scraperGroup \<Rightarrow> scraperGroup result" where
  "run_ops key suppress [] sg = Inr sg"
| "run_ops key suppress (Update sws # ops) sg =
     (case update key suppress sws sg of
        Inl e \<Rightarrow> Inl e
      | Inr sg' \<Rightarrow> run_ops key suppress ops sg')"
| "run_ops key suppress (Stop # ops) sg =
     (case stop sg of
        Inl e \<Rightarrow> Inl e
      | Inr sg' \<Rightarrow> run_ops key suppress ops sg')"

text \<open>The group a call ends with, returned or at the panic, and the effects the call added.\<close>

definition result_group :: "scraperGroup result \<Rightarrow> scraperGroup" where
  "result_group r = (case r of Inl (p, sg) \<Rightarrow> sg | Inr sg \<Rightarrow> sg)"

definition new_events :: "scraperGroup \<Rightarrow> scraperGroup \<Rightarrow> event list" where
  "new_events sg sg' = drop (length (trace sg)) (trace sg')"

text \<open>
  A trace in which every \<open>go\<close> statement is followed at once by the \<open>Register\<close> call for the
  \<open>ScrapeWork\<close> of the scraper, \<open>Register\<close> is called nowhere else, and the goroutine runs the
  worker, then calls \<open>Unregister\<close> for the same \<open>ScrapeWork\<close>, then \<open>wg.Done\<close>.
\<close>

fun spawn_register_ok :: "event list \<Rightarrow> bool" where
  "spawn_register_ok [] = True"
| "spawn_register_ok (Go_worker sc body # TsmRegister sw # tr) =
     (sw = sw_Config sc \<and> body = [Run_sw (stopCh sc), TsmUnregister sw, WgDone]
      \<and> spawn_register_ok tr)"
| "spawn_register_ok (Go_worker sc body # tr) = False"
| "spawn_register_ok (TsmRegister sw # tr) = False"
| "spawn_register_ok (e # tr) = spawn_register_ok tr"

text \<open>
  A trace in which every goroutine is started only after its target has been registered in the
  target-status monitor; \<open>regd\<close> holds the targets registered so far.
\<close>

fun registered_before_go :: "ScrapeWork list \<Rightarrow> event list \<Rightarrow> bool" where
  "registered_before_go regd [] = True"
| "registered_before_go regd (TsmRegister sw # tr) = registered_before_go (sw # regd) tr"
| "registered_before_go regd (Go_worker sc body # tr) =
     (sw_Config sc \<in> set regd \<and> registered_before_go regd tr)"
| "registered_before_go regd (e # tr) = registered_before_go regd tr"

text \<open>
  The entries of a list whose key is the key of an earlier entry (or is in \<open>seen\<close>), and the
  arguments of the calls of \<open>droppedTargetsMap.Register\<close> in a trace.
\<close>

fun later_occurrences :: "(ScrapeWork \<Rightarrow> string) \<Rightarrow> string list \<Rightarrow> ScrapeWork list \<Rightarrow> ScrapeWork list" where
  "later_occurrences key seen [] = []"
| "later_occurrences key seen (sw # sws) =
     (if key sw \<in> set seen then sw # later_occurrences key seen sws
      else later_occurrences key (key sw # seen) sws)"

fun dropped_labels :: "event list \<Rightarrow> Label slice list" where
  "dropped_labels [] = []"
| "dropped_labels (DroppedRegister l # tr) = l # dropped_labels tr"
| "dropped_labels (e # tr) = dropped_labels tr"

text \<open>A group and a result without the log lines about duplicate targets.\<close>

fun is_duplicate_log :: "event \<Rightarrow> bool" where
  "is_duplicate_log (Errorf_duplicate sw l1 l2) = True"
| "is_duplicate_log e = False"

definition strip_log :: "scraperGroup \<Rightarrow> scraperGroup" where
  "strip_log sg = sg\<lparr>trace := filter (\<lambda>e. \<not> is_duplicate_log e) (trace sg)\<rparr>"

definition strip_result :: "scraperGroup result \<Rightarrow> scraperGroup result" where
  "strip_result r = (case r of Inl (p, sg) \<Rightarrow> Inl (p, strip_log sg) | Inr sg \<Rightarrow> Inr (strip_log sg))"

subsection \<open>Example targets\<close>

definition sw_a :: ScrapeWork where
  "sw_a = \<lparr>ScrapeURL = ''http://a/metrics'', Labels = [(''job'', ''x'')],
            OriginalLabels = Some [(''job'', ''x'')]\<rparr>"

definition sw_b :: ScrapeWork where
  "sw_b = \<lparr>ScrapeURL = ''http://b/metrics'', Labels = [(''job'', ''x'')],
            OriginalLabels = Some [(''job'', ''x'')]\<rparr>"

definition sw_a_dup :: ScrapeWork where
  "sw_a_dup = \<lparr>ScrapeURL = ''http://a/metrics'', Labels = [(''job'', ''x'')],
                OriginalLabels = Some [(''job'', ''y'')]\<rparr>"

definition sw_a_nil :: ScrapeWork where
  "sw_a_nil = \<lparr>ScrapeURL = ''http://a/metrics'', Labels = [(''job'', ''x'')],
                OriginalLabels = None\<rparr>"

definition sc_b :: scraper where
  "sc_b = \<lparr>sw_Config = sw_b, sw_ScrapeGroup = ''static_configs'', stopCh = 0\<rparr>"

text \<open>The group \<open>static_configs\<close> after its first reconcile with the single target \<open>sw_b\<close>.\<close>

definition sg_b :: scraperGroup where
  "sg_b = \<lparr>sg_name = ''static_configs'', sg_m = Some [(''http://b/metrics'', sc_b)],
           changesCount = 1, nextCh = 1,
           trace = [Go_worker sc_b [Run_sw 0, TsmUnregister sw_b, WgDone], TsmRegister sw_b,
                    Infof_summary ''static_configs'' 1 0 1]\<rparr>"

text \<open>Three reconciles of one group: a duplicate, a removal, a return.\<close>

definition ops_example :: "op list" where
  "ops_example = [Update [sw_a, sw_b, sw_a_dup], Update [sw_b], Update [sw_a]]"

text \<open>The new group \<open>static_configs\<close> after \<open>stop\<close>.\<close>

definition sg_stopped :: scraperGroup where
  "sg_stopped = \<lparr>sg_name = ''static_configs'', sg_m = None, changesCount = 0, nextCh = 0,
                  trace = [WgWait]\<rparr>"

section \<open>The runner and its scrape configs (lib/promscrape/scraper.go)\<close>

subsection \<open>Channels\<close>

text \<open>
  A buffered Go channel: the values sent and not yet received, oldest first, and the
  capacity given to \<open>make\<close>. A send on a full buffer and a receive on an empty one block;
  they are \<open>None\<close> here.
\<close>

record 'a chan =
  capacity :: nat
  queue :: "'a list"

definition make_chan :: "nat \<Rightarrow> 'a chan" where
  "make_chan n = \<lparr>capacity = n, queue = []\<rparr>"

definition chan_send :: "'a \<Rightarrow> 'a chan \<Rightarrow> 'a chan option" where
  "chan_send v ch =
     (if length (queue ch) < capacity ch then Some (ch\<lparr>queue := queue ch @ [v]\<rparr>) else None)"

definition chan_recv :: "'a chan \<Rightarrow> ('a \<times> 'a chan) option" where
  "chan_recv ch = (case queue ch of [] \<Rightarrow> None | v # vs \<Rightarrow> Some (v, ch\<lparr>queue := vs\<rparr>))"

subsection \<open>Flags and results of collaborators\<close>

text \<open>The command-line flags read by scraper.go; a \<open>time.Duration\<close> is a number of nanoseconds.\<close>

record flags =
  configCheckInterval :: int
  fileSDCheckInterval :: int
  kubernetesSDCheckInterval :: int
  openstackSDCheckInterval :: int
  consulSDCheckInterval :: int
  eurekaSDCheckInterval :: int
  dnsSDCheckInterval :: int
  ec2SDCheckInterval :: int
  gceSDCheckInterval :: int
  dockerswarmSDCheckInterval :: int
  promscrapeConfigFile :: string
  suppressDuplicateScrapeTargetErrors :: bool

text \<open>
  \<open>loadConfig\<close> is declared outside scraper.go. One call gives an error or the parsed
  config with the raw bytes of the file; the type of parsed configs is the parameter \<open>'cfg\<close>.
\<close>

datatype 'cfg load = LoadErr string | Loaded 'cfg string

text \<open>The log lines of \<open>runScraper\<close>, with the path and the error they print.\<close>

datatype logline =
    Reading string
  | FatalCannotRead string string
  | SighupReceived string
  | CannotReadOnSighup string string
  | NothingChanged string
  | CannotRead string string
  | FoundChanges string
  | StoppingScrapers
  | StoppedScrapers

subsection \<open>CheckConfig\<close>

text \<open>The error that \<open>CheckConfig\<close> returns, \<open>None\<close> for \<open>nil\<close>.\<close>

definition CheckConfig :: "flags \<Rightarrow> (string \<Rightarrow> 'cfg load) \<Rightarrow> string option" where
  "CheckConfig fl loadConfig =
     (if promscrapeConfigFile fl = [] then Some ''missing -promscrape.config option''
      else case loadConfig (promscrapeConfigFile fl) of
             LoadErr err \<Rightarrow> Some err
           | Loaded cfg data \<Rightarrow> None)"

subsection \<open>scrapeConfig and scrapeConfigs\<close>

text \<open>
  Where the goroutine of \<open>scrapeConfig.run\<close> stands: at the first receive (line 225),
  before the first \<open>updateScrapeWork\<close> (line 232), before the decrement (line 233),
  at the \<open>select\<close> (line 237), before \<open>updateScrapeWork\<close> in the loop (line 243),
  or returned.
\<close>

datatype 'cfg scfg_pc =
    AwaitInitial
  | FirstUpdate 'cfg
  | Decrement 'cfg
  | Select 'cfg
  | LoopUpdate 'cfg
  | Exited

text \<open>
  A \<open>scrapeConfig\<close> with the state of its goroutine: the variables \<open>swsPrev\<close> and \<open>sg\<close> of
  \<open>run\<close> and the place where it stands. \<open>stopCh\<close> is the channel of the \<open>scrapeConfigs\<close>, kept
  there; \<open>pushData\<close> and \<open>getScrapeWork\<close> are left out.
\<close>

record 'cfg scrapeConfig =
  scfg_name :: string
  checkInterval :: int
  cfgCh :: "'cfg chan"
  scfg_pc :: "'cfg scfg_pc"
  swsPrev :: "ScrapeWork list"
  scfg_sg :: scraperGroup

text \<open>The \<open>scrapeConfig\<close> made by \<open>scrapeConfigs.add\<close>, its goroutine started.\<close>

definition new_scrapeConfig :: "string \<Rightarrow> int \<Rightarrow> 'cfg scrapeConfig" where
  "new_scrapeConfig name iv =
     \<lparr>scfg_name = name, checkInterval = iv, cfgCh = make_chan 1, scfg_pc = AwaitInitial,
      swsPrev = [], scfg_sg = newScraperGroup name\<rparr>"

text \<open>
  \<open>updateConfig\<close> sends the config to every \<open>scrapeConfig\<close> in turn. The runner either gets
  through the list or waits at the first channel whose buffer is full, with the sends before
  it done.
\<close>

datatype 'a progress = Done 'a | Blocked 'a

fun updateConfig :: "'cfg \<Rightarrow> 'cfg scrapeConfig list \<Rightarrow> 'cfg scrapeConfig list progress" where
  "updateConfig cfg [] = Done []"
| "updateConfig cfg (scfg # rest) =
     (case chan_send cfg (cfgCh scfg) of
        None \<Rightarrow> Blocked (scfg # rest)
      | Some ch \<Rightarrow>
          (case updateConfig cfg rest of
             Done rest' \<Rightarrow> Done (scfg\<lparr>cfgCh := ch\<rparr> # rest')
           | Blocked rest' \<Rightarrow> Blocked (scfg\<lparr>cfgCh := ch\<rparr> # rest')))"

subsection \<open>runScraper\<close>

text \<open>\<open>atomic.AddInt32\<close> wraps around.\<close>

definition add_int32 :: "int \<Rightarrow> int \<Rightarrow> int" where
  "add_int32 x d = (x + d + 2 ^ 31) mod 2 ^ 32 - 2 ^ 31"

text \<open>
  Where \<open>runScraper\<close> stands: in the calls of \<open>scs.add\<close> (lines 99 to 108, the categories still
  to add), in \<open>scs.updateConfig\<close> before the send to the \<open>scrapeConfig\<close> of the given index
  (line 119), at the \<open>select\<close> (line 121), in \<open>scs.stop\<close> waiting for the goroutines
  (line 201), or returned.
\<close>

datatype runner_pc =
    Adding "(string \<times> int) list"
  | FanOut nat
  | Waiting
  | StopWait
  | Returned

record 'cfg system =
  configFile :: string
  r_pc :: runner_pc
  r_cfg :: 'cfg
  r_data :: string
  tickerOn :: bool
  configReloads :: nat
  PendingScrapeConfigs :: int
  scfgs :: "'cfg scrapeConfig list"
  scs_stopCh_closed :: bool
  r_log :: "logline list"

text \<open>The ten categories in the order of the \<open>scs.add\<close> calls, with their check intervals.\<close>

definition categories :: "flags \<Rightarrow> (string \<times> int) list" where
  "categories fl =
     [(''static_configs'', 0),
      (''file_sd_configs'', fileSDCheckInterval fl),
      (''kubernetes_sd_configs'', kubernetesSDCheckInterval fl),
      (''openstack_sd_configs'', openstackSDCheckInterval fl),
      (''consul_sd_configs'', consulSDCheckInterval fl),
      (''eureka_sd_configs'', eurekaSDCheckInterval fl),
      (''dns_sd_configs'', dnsSDCheckInterval fl),
      (''ec2_sd_configs'', ec2SDCheckInterval fl),
      (''gce_sd_configs'', gceSDCheckInterval fl),
      (''dockerswarm_sd_configs'', dockerswarmSDCheckInterval fl)]"

text \<open>
  The start of \<open>runScraper\<close>, up to \<open>newScrapeConfigs\<close>: it returns at once on an empty path,
  \<open>logger.Fatalf\<close> ends the process when the config cannot be read, otherwise the run begins
  with the first \<open>scs.add\<close>. \<open>pending0\<close> is the value of \<open>PendingScrapeConfigs\<close> at that time.
\<close>

datatype 'cfg start = ReturnedAtOnce | FatalExit "logline list" | Running "'cfg system"

definition runScraper_start :: "flags \<Rightarrow> string \<Rightarrow> 'cfg load \<Rightarrow> int \<Rightarrow> 'cfg start" where
  "runScraper_start fl path loaded pending0 =
     (if path = [] then ReturnedAtOnce
      else case loaded of
             LoadErr err \<Rightarrow> FatalExit [Reading path, FatalCannotRead path err]
           | Loaded cfg data \<Rightarrow>
               Running \<lparr>configFile = path, r_pc = Adding (categories fl), r_cfg = cfg,
                        r_data = data, tickerOn = (configCheckInterval fl > 0),
                        configReloads = 0, PendingScrapeConfigs = pending0, scfgs = [],
                        scs_stopCh_closed = False, r_log = [Reading path]\<rparr>)"

text \<open>
  \<open>Init\<close> starts \<open>runScraper\<close> on the path of the flag \<open>-promscrape.config\<close>, in a goroutine
  counted by \<open>scraperWG\<close>; \<open>Stop\<close> closes \<open>globalStopCh\<close> and waits for \<open>scraperWG\<close>, so it
  returns once \<open>runScraper\<close> has returned.
\<close>

definition Init :: "flags \<Rightarrow> 'cfg load \<Rightarrow> int \<Rightarrow> 'cfg start" where
  "Init fl loaded pending0 = runScraper_start fl (promscrapeConfigFile fl) loaded pending0"

definition Stop_returns :: "'cfg start \<Rightarrow> bool" where
  "Stop_returns st =
     (case st of
        ReturnedAtOnce \<Rightarrow> True
      | FatalExit l \<Rightarrow> False
      | Running s \<Rightarrow> r_pc s = Returned)"

text \<open>
  What arrives at the \<open>select\<close> of \<open>runScraper\<close>: SIGHUP or a tick, each with the result of
  the \<open>loadConfig\<close> call it triggers, or the close of \<open>globalStopCh\<close>.
\<close>

datatype 'cfg runner_event = Sighup "'cfg load" | Tick "'cfg load" | GlobalStop

text \<open>
  One pass through the \<open>select\<close>, up to the next \<open>scs.updateConfig\<close>, to \<open>waitForChans\<close> or
  into \<open>scs.stop\<close>. \<open>None\<close>: the event cannot arrive (the runner is not at the \<open>select\<close>, or
  there is no ticker).
\<close>

definition on_event :: "'cfg runner_event \<Rightarrow> 'cfg system \<Rightarrow> 'cfg system option" where
  "on_event ev s =
     (if r_pc s \<noteq> Waiting then None
      else case ev of
        Sighup loaded \<Rightarrow>
          (case loaded of
             LoadErr err \<Rightarrow>
               Some (s\<lparr>r_log := r_log s @ [SighupReceived (configFile s),
                                             CannotReadOnSighup (configFile s) err]\<rparr>)
           | Loaded cfgNew dataNew \<Rightarrow>
               if r_data s = dataNew then
                 Some (s\<lparr>r_log := r_log s @ [SighupReceived (configFile s),
                                               NothingChanged (configFile s)]\<rparr>)
               else
                 Some (s\<lparr>r_cfg := cfgNew, r_data := dataNew,
                         r_log := r_log s @ [SighupReceived (configFile s),
                                             FoundChanges (configFile s)],
                         configReloads := Suc (configReloads s),
                         r_pc := FanOut 0\<rparr>))
      | Tick loaded \<Rightarrow>
          if \<not> tickerOn s then None
          else
            (case loaded of
               LoadErr err \<Rightarrow> Some (s\<lparr>r_log := r_log s @ [CannotRead (configFile s) err]\<rparr>)
             | Loaded cfgNew dataNew \<Rightarrow>
                 if r_data s = dataNew then Some s
                 else
                   Some (s\<lparr>r_cfg := cfgNew, r_data := dataNew,
                           r_log := r_log s @ [FoundChanges (configFile s)],
                           configReloads := Suc (configReloads s),
                           r_pc := FanOut 0\<rparr>))
      | GlobalStop \<Rightarrow>
          Some (s\<lparr>r_log := r_log s @ [StoppingScrapers], scs_stopCh_closed := True,
                  r_pc := StopWait\<rparr>))"

text \<open>
  One step of the goroutine of a \<open>scrapeConfig\<close>. \<open>closed\<close> tells whether \<open>scs.stopCh\<close> is
  closed; the flag of the step tells whether it is the decrement of \<open>PendingScrapeConfigs\<close>.
  The list \<open>sws\<close> is what \<open>getScrapeWork\<close> returns, which is declared outside scraper.go.
\<close>

inductive scfg_step ::
  "(ScrapeWork \<Rightarrow> string) \<Rightarrow> bool \<Rightarrow> bool \<Rightarrow> 'cfg scrapeConfig \<Rightarrow> bool \<Rightarrow> 'cfg scrapeConfig \<Rightarrow> bool"
  for key :: "ScrapeWork \<Rightarrow> string" and suppress :: bool and closed :: bool where
  recv_initial:
    "scfg_pc c = AwaitInitial \<Longrightarrow> chan_recv (cfgCh c) = Some (cfg, ch) \<Longrightarrow>
     scfg_step key suppress closed c False (c\<lparr>cfgCh := ch, scfg_pc := FirstUpdate cfg\<rparr>)"
| first_update:
    "scfg_pc c = FirstUpdate cfg \<Longrightarrow> update key suppress sws (scfg_sg c) = Inr g \<Longrightarrow>
     scfg_step key suppress closed c False (c\<lparr>scfg_sg := g, swsPrev := sws, scfg_pc := Decrement cfg\<rparr>)"
| decrement:
    "scfg_pc c = Decrement cfg \<Longrightarrow>
     scfg_step key suppress closed c True (c\<lparr>scfg_pc := Select cfg\<rparr>)"
| select_stop:
    "scfg_pc c = Select cfg \<Longrightarrow> closed \<Longrightarrow> stop (scfg_sg c) = Inr g \<Longrightarrow>
     scfg_step key suppress closed c False (c\<lparr>scfg_sg := g, scfg_pc := Exited\<rparr>)"
| select_cfg:
    "scfg_pc c = Select cfg \<Longrightarrow> chan_recv (cfgCh c) = Some (cfg', ch) \<Longrightarrow>
     scfg_step key suppress closed c False (c\<lparr>cfgCh := ch, scfg_pc := LoopUpdate cfg'\<rparr>)"
| select_tick:
    "scfg_pc c = Select cfg \<Longrightarrow> checkInterval c > 0 \<Longrightarrow>
     scfg_step key suppress closed c False (c\<lparr>scfg_pc := LoopUpdate cfg\<rparr>)"
| loop_update:
    "scfg_pc c = LoopUpdate cfg \<Longrightarrow> update key suppress sws (scfg_sg c) = Inr g \<Longrightarrow>
     scfg_step key suppress closed c False (c\<lparr>scfg_sg := g, swsPrev := sws, scfg_pc := Select cfg\<rparr>)"

text \<open>One step of the whole run: of \<open>runScraper\<close> or of one \<open>scrapeConfig\<close> goroutine.\<close>

inductive step ::
  "(ScrapeWork \<Rightarrow> string) \<Rightarrow> bool \<Rightarrow> 'cfg system \<Rightarrow> 'cfg system \<Rightarrow> bool"
  for key :: "ScrapeWork \<Rightarrow> string" and suppress :: bool where
  add:
    "r_pc s = Adding ((name, iv) # rest) \<Longrightarrow>
     step key suppress s
       (s\<lparr>PendingScrapeConfigs := add_int32 (PendingScrapeConfigs s) 1,
          scfgs := scfgs s @ [new_scrapeConfig name iv],
          r_pc := Adding rest\<rparr>)"
| adds_done:
    "r_pc s = Adding [] \<Longrightarrow> step key suppress s (s\<lparr>r_pc := FanOut 0\<rparr>)"
| send:
    "r_pc s = FanOut j \<Longrightarrow> j < length (scfgs s) \<Longrightarrow>
     chan_send (r_cfg s) (cfgCh (scfgs s ! j)) = Some ch \<Longrightarrow>
     step key suppress s
       (s\<lparr>scfgs := (scfgs s)[j := (scfgs s ! j)\<lparr>cfgCh := ch\<rparr>], r_pc := FanOut (Suc j)\<rparr>)"
| sent_all:
    "r_pc s = FanOut j \<Longrightarrow> length (scfgs s) \<le> j \<Longrightarrow> step key suppress s (s\<lparr>r_pc := Waiting\<rparr>)"
| event:
    "on_event ev s = Some s' \<Longrightarrow> step key suppress s s'"
| stopped:
    "r_pc s = StopWait \<Longrightarrow> \<forall>c \<in> set (scfgs s). scfg_pc c = Exited \<Longrightarrow>
     step key suppress s (s\<lparr>scfgs := [], r_log := r_log s @ [StoppedScrapers], r_pc := Returned\<rparr>)"
| scfg_other:
    "j < length (scfgs s) \<Longrightarrow>
     scfg_step key suppress (scs_stopCh_closed s) (scfgs s ! j) False c' \<Longrightarrow>
     step key suppress s (s\<lparr>scfgs := (scfgs s)[j := c']\<rparr>)"
| scfg_decrement:
    "j < length (scfgs s) \<Longrightarrow>
     scfg_step key suppress (scs_stopCh_closed s) (scfgs s ! j) True c' \<Longrightarrow>
     step key suppress s
       (s\<lparr>scfgs := (scfgs s)[j := c'],
          PendingScrapeConfigs := add_int32 (PendingScrapeConfigs s) (- 1)\<rparr>)"

text \<open>A \<open>scrapeConfig\<close> that has been created and has not yet done its decrement.\<close>

definition pending :: "'cfg scrapeConfig \<Rightarrow> bool" where
  "pending c = (case scfg_pc c of AwaitInitial \<Rightarrow> True | FirstUpdate cfg \<Rightarrow> True
                | Decrement cfg \<Rightarrow> True | _ \<Rightarrow> False)"

subsection \<open>Observing a run\<close>

text \<open>A \<open>scrapeConfig\<close> whose channel buffer has room, and what a completed send does to it.\<close>

definition has_room :: "'cfg scrapeConfig \<Rightarrow> bool" where
  "has_room c = (length (queue (cfgCh c)) < capacity (cfgCh c))"

definition deliver :: "'cfg \<Rightarrow> 'cfg scrapeConfig \<Rightarrow> 'cfg scrapeConfig" where
  "deliver cfg c = c\<lparr>cfgCh := (cfgCh c)\<lparr>queue := queue (cfgCh c) @ [cfg]\<rparr>\<rparr>"

text \<open>The category \<open>name\<close> has a \<open>scrapeConfig\<close> that has done its first reconcile and its decrement.\<close>

definition initial_applied :: "'cfg system \<Rightarrow> string \<Rightarrow> bool" where
  "initial_applied s name = list_ex (\<lambda>c. scfg_name c = name \<and> \<not> pending c) (scfgs s)"

text \<open>
  The invariant of a run: the counter is the number of \<open>scrapeConfig\<close>s that have not done their
  decrement; there are at most ten \<open>scrapeConfig\<close>s, those still to add included; and while
  \<open>runScraper\<close> is adding, every \<open>scrapeConfig\<close> waits for its first config on an empty channel.
\<close>

definition run_inv :: "'cfg system \<Rightarrow> bool" where
  "run_inv s =
     (PendingScrapeConfigs s = int (length (filter pending (scfgs s)))
      \<and> length (scfgs s) + (case r_pc s of Adding rest \<Rightarrow> length rest | _ \<Rightarrow> 0) \<le> 10
      \<and> ((\<exists>rest. r_pc s = Adding rest) \<longrightarrow>
           (\<forall>c \<in> set (scfgs s). scfg_pc c = AwaitInitial \<and> queue (cfgCh c) = [])))"

text \<open>The counter reads zero after the first \<open>scs.add\<close>.\<close>

definition settled :: "'cfg system \<Rightarrow> bool" where
  "settled s = (run_inv s \<and> PendingScrapeConfigs s = 0 \<and> (scfgs s \<noteq> [] \<or> r_pc s = Returned))"

text \<open>
  A schedule for the start of a run: \<open>runScraper\<close> goes on while it can, then the first
  \<open>scrapeConfig\<close> that can; the extractors return no targets.
\<close>

definition sched_scfg ::
  "(ScrapeWork \<Rightarrow> string) \<Rightarrow> bool \<Rightarrow> 'cfg scrapeConfig \<Rightarrow> (bool \<times> 'cfg scrapeConfig) option" where
  "sched_scfg key suppress c =
     (case scfg_pc c of
        AwaitInitial \<Rightarrow>
          (case chan_recv (cfgCh c) of
             None \<Rightarrow> None
           | Some (cfg, ch) \<Rightarrow> Some (False, c\<lparr>cfgCh := ch, scfg_pc := FirstUpdate cfg\<rparr>))
      | FirstUpdate cfg \<Rightarrow>
          (case update key suppress [] (scfg_sg c) of
             Inl e \<Rightarrow> None
           | Inr g \<Rightarrow> Some (False, c\<lparr>scfg_sg := g, swsPrev := [], scfg_pc := Decrement cfg\<rparr>))
      | Decrement cfg \<Rightarrow> Some (True, c\<lparr>scfg_pc := Select cfg\<rparr>)
      | _ \<Rightarrow> None)"

fun sched_first ::
  "(ScrapeWork \<Rightarrow> string) \<Rightarrow> bool \<Rightarrow> nat \<Rightarrow> 'cfg scrapeConfig list
     \<Rightarrow> (nat \<times> bool \<times> 'cfg scrapeConfig) option" where
  "sched_first key suppress j [] = None"
| "sched_first key suppress j (c # cs) =
     (case sched_scfg key suppress c of
        Some (dec, c') \<Rightarrow> Some (j, dec, c')
      | None \<Rightarrow> sched_first key suppress (Suc j) cs)"

definition sched :: "(ScrapeWork \<Rightarrow> string) \<Rightarrow> bool \<Rightarrow> 'cfg system \<Rightarrow> 'cfg system option" where
  "sched key suppress s =
     (case r_pc s of
        Adding ((name, iv) # rest) \<Rightarrow>
          Some (s\<lparr>PendingScrapeConfigs := add_int32 (PendingScrapeConfigs s) 1,
                  scfgs := scfgs s @ [new_scrapeConfig name iv],
                  r_pc := Adding rest\<rparr>)
      | Adding [] \<Rightarrow> Some (s\<lparr>r_pc := FanOut 0\<rparr>)
      | FanOut j \<Rightarrow>
          if j < length (scfgs s) then
            (case chan_send (r_cfg s) (cfgCh (scfgs s ! j)) of
               None \<Rightarrow> None
             | Some ch \<Rightarrow>
                 Some (s\<lparr>scfgs := (scfgs s)[j := (scfgs s ! j)\<lparr>cfgCh := ch\<rparr>],
                         r_pc := FanOut (Suc j)\<rparr>))
          else Some (s\<lparr>r_pc := Waiting\<rparr>)
      | _ \<Rightarrow>
          (case sched_first key suppress 0 (scfgs s) of
             None \<Rightarrow> None
           | Some (j, dec, c') \<Rightarrow>
               Some (if dec then
                       s\<lparr>scfgs := (scfgs s)[j := c'],
                         PendingScrapeConfigs := add_int32 (PendingScrapeConfigs s) (- 1)\<rparr>
                     else s\<lparr>scfgs := (scfgs s)[j := c']\<rparr>)))"

fun run_sched ::
  "(ScrapeWork \<Rightarrow> string) \<Rightarrow> bool \<Rightarrow> nat \<Rightarrow> 'cfg system \<Rightarrow> 'cfg system option" where
  "run_sched key suppress 0 s = Some s"
| "run_sched key suppress (Suc n) s =
     (case sched key suppress s of
        None \<Rightarrow> None
      | Some s' \<Rightarrow> run_sched key suppress n s')"

subsection \<open>Example runs\<close>

definition example_flags :: flags where
  "example_flags =
     \<lparr>configCheckInterval = 0, fileSDCheckInterval = 30000000000,
      kubernetesSDCheckInterval = 30000000000, openstackSDCheckInterval = 30000000000,
      consulSDCheckInterval = 30000000000, eurekaSDCheckInterval = 30000000000,
      dnsSDCheckInterval = 30000000000, ec2SDCheckInterval = 60000000000,
      gceSDCheckInterval = 60000000000, dockerswarmSDCheckInterval = 30000000000,
      promscrapeConfigFile = ''prometheus.yml'', suppressDuplicateScrapeTargetErrors = False\<rparr>"

text \<open>The run as it begins with these flags and a config file of one line.\<close>

definition example_start :: "nat system" where
  "example_start =
     \<lparr>configFile = ''prometheus.yml'', r_pc = Adding (categories example_flags), r_cfg = 1,
      r_data = ''scrape_configs: []'', tickerOn = False, configReloads = 0,
      PendingScrapeConfigs = 0, scfgs = [], scs_stopCh_closed = False,
      r_log = [Reading ''prometheus.yml'']\<rparr>"

text \<open>
  Two \<open>scrapeConfig\<close>s in the loop: one at the \<open>select\<close> with an empty channel, one in
  \<open>updateScrapeWork\<close> with a config already queued; and a run with both, the runner at its
  \<open>select\<close>.
\<close>

definition idle_scfg :: "nat scrapeConfig" where
  "idle_scfg = \<lparr>scfg_name = ''static_configs'', checkInterval = 0,
                 cfgCh = \<lparr>capacity = 1, queue = []\<rparr>, scfg_pc = Select 0, swsPrev = [],
                 scfg_sg = newScraperGroup ''static_configs''\<rparr>"

definition busy_scfg :: "nat scrapeConfig" where
  "busy_scfg = \<lparr>scfg_name = ''file_sd_configs'', checkInterval = 30000000000,
                 cfgCh = \<lparr>capacity = 1, queue = [1]\<rparr>, scfg_pc = LoopUpdate 0, swsPrev = [],
                 scfg_sg = newScraperGroup ''file_sd_configs''\<rparr>"

definition example_waiting :: "nat system" where
  "example_waiting =
     \<lparr>configFile = ''prometheus.yml'', r_pc = Waiting, r_cfg = 1,
      r_data = ''scrape_configs: []'', tickerOn = True, configReloads = 3,
      PendingScrapeConfigs = 0, scfgs = [idle_scfg, busy_scfg], scs_stopCh_closed = False,
      r_log = [Reading ''prometheus.yml'']\<rparr>"

section \<open>Properties of scraper groups\<close>

lemma m_get_open: "sg_m sg = Some mp \<Longrightarrow> m_get sg k = map_of mp k"
  by (simp add: m_get_def)

lemma update_step_open:
  assumes "sg_m sg = Some mp"
  shows "update_step key suppress sw (M, a, sg) =
     (if swsMap_get M (key sw) \<noteq> None then
        Inr (M, a, sg\<lparr>trace := trace sg
                  @ (if \<not> suppress then [Errorf_duplicate sw (swsMap_get M (key sw)) (OriginalLabels sw)] else [])
                  @ [DroppedRegister (OriginalLabels sw)]\<rparr>)
      else if key sw \<in> fst ` set mp then Inr (M(key sw \<mapsto> OriginalLabels sw), a, sg)
      else Inr (M(key sw \<mapsto> OriginalLabels sw), Suc a,
                sg\<lparr>nextCh := Suc (nextCh sg),
                   trace := trace sg @ [Go_worker (newScraper sw (sg_name sg) (nextCh sg))
                                (worker_body (newScraper sw (sg_name sg) (nextCh sg)) sw), TsmRegister sw],
                   sg_m := Some (AList.update (key sw) (newScraper sw (sg_name sg) (nextCh sg)) mp)\<rparr>))"
proof (cases "map_of mp (key sw)")
  case None
  then have "key sw \<notin> fst ` set mp" by (simp add: map_of_eq_None_iff)
  with None assms show ?thesis
    by (simp add: update_step_def m_get_open Let_def del: not_None_eq)
next
  case (Some sc)
  then have "key sw \<in> fst ` set mp" by (metis map_of_eq_None_iff option.distinct(1))
  with Some assms show ?thesis
    by (simp add: update_step_def m_get_open Let_def del: not_None_eq)
qed

lemma update_loop_returns:
  "sg_m sg \<noteq> None \<Longrightarrow> \<exists>M' a' sg'. update_loop key suppress sws (M, a, sg) = Inr (M', a', sg')"
proof (induction sws arbitrary: M a sg)
  case Nil
  then show ?case by simp
next
  case (Cons sw sws)
  from Cons.prems obtain mp where mp: "sg_m sg = Some mp" by auto
  show ?case
    using Cons.IH mp by (simp add: update_step_open del: not_None_eq)
qed

text \<open>What the first loop keeps and establishes on an open group.\<close>

lemma update_loop_open:
  assumes "update_loop key suppress sws (M, a, sg) = Inr (M', a', sg')"
    and "sg_m sg = Some mp" "dom M \<subseteq> fst ` set mp"
  shows "sg_m sg' \<noteq> None
           \<and> dom M' = dom M \<union> key ` set sws
           \<and> fst ` set (m_entries sg') = fst ` set mp \<union> key ` set sws
           \<and> (\<forall>k \<in> fst ` set mp. m_get sg' k = map_of mp k)
           \<and> a' = a + card (key ` set sws - fst ` set mp)"
  using assms
proof (induction sws arbitrary: M a sg mp)
  case Nil
  then show ?case by (simp add: m_entries_def m_get_def)
next
  case (Cons sw sws)
  let ?k = "key sw"
  consider (dup) "swsMap_get M ?k \<noteq> None"
    | (kept) "swsMap_get M ?k = None" "?k \<in> fst ` set mp"
    | (new) "swsMap_get M ?k = None" "?k \<notin> fst ` set mp" by blast
  then show ?case
  proof cases
    case dup
    then have kM: "?k \<in> dom M" by (auto simp: swsMap_get_def split: option.splits)
    with Cons.prems have kmp: "?k \<in> fst ` set mp" by blast
    let ?sg = "sg\<lparr>trace := trace sg
                  @ (if \<not> suppress then [Errorf_duplicate sw (swsMap_get M (key sw)) (OriginalLabels sw)] else [])
                  @ [DroppedRegister (OriginalLabels sw)]\<rparr>"
    have st: "update_step key suppress sw (M, a, sg) = Inr (M, a, ?sg)"
      using dup Cons.prems(2) by (simp add: update_step_open del: not_None_eq)
    have e: "update_loop key suppress sws (M, a, ?sg) = Inr (M', a', sg')"
      using st Cons.prems(1) by simp
    have o: "sg_m ?sg = Some mp" using Cons.prems(2) by simp
    note r = Cons.IH[OF e o Cons.prems(3)]
    have s1: "dom M' = dom M \<union> key ` set (sw # sws)" using r kM by auto
    have s2: "fst ` set (m_entries sg') = fst ` set mp \<union> key ` set (sw # sws)" using r kmp by auto
    have "key ` set (sw # sws) - fst ` set mp = key ` set sws - fst ` set mp"
      using kmp by auto
    then have s3: "a' = a + card (key ` set (sw # sws) - fst ` set mp)" using r by simp
    show ?thesis using r s1 s2 s3 by simp
  next
    case kept
    have st: "update_step key suppress sw (M, a, sg) = Inr (M(?k \<mapsto> OriginalLabels sw), a, sg)"
      using kept Cons.prems(2) by (simp add: update_step_open del: not_None_eq)
    have e: "update_loop key suppress sws (M(?k \<mapsto> OriginalLabels sw), a, sg) = Inr (M', a', sg')"
      using st Cons.prems(1) by simp
    have d: "dom (M(?k \<mapsto> OriginalLabels sw)) \<subseteq> fst ` set mp"
      using kept(2) Cons.prems(3) by auto
    note r = Cons.IH[OF e Cons.prems(2) d]
    have s1: "dom M' = dom M \<union> key ` set (sw # sws)" using r by auto
    have s2: "fst ` set (m_entries sg') = fst ` set mp \<union> key ` set (sw # sws)" using r kept(2) by auto
    have "key ` set (sw # sws) - fst ` set mp = key ` set sws - fst ` set mp"
      using kept(2) by auto
    then have s3: "a' = a + card (key ` set (sw # sws) - fst ` set mp)" using r by simp
    show ?thesis using r s1 s2 s3 by simp
  next
    case new
    let ?sc = "newScraper sw (sg_name sg) (nextCh sg)"
    let ?mp = "AList.update ?k ?sc mp"
    let ?sg = "sg\<lparr>nextCh := Suc (nextCh sg),
                   trace := trace sg @ [Go_worker ?sc (worker_body ?sc sw), TsmRegister sw],
                   sg_m := Some ?mp\<rparr>"
    have st: "update_step key suppress sw (M, a, sg) = Inr (M(?k \<mapsto> OriginalLabels sw), Suc a, ?sg)"
      using new Cons.prems(2) by (simp add: update_step_open del: not_None_eq)
    have e: "update_loop key suppress sws (M(?k \<mapsto> OriginalLabels sw), Suc a, ?sg) = Inr (M', a', sg')"
      using st Cons.prems(1) by simp
    have o: "sg_m ?sg = Some ?mp" by simp
    have keys: "fst ` set ?mp = insert ?k (fst ` set mp)" by (simp add: dom_update)
    have d: "dom (M(?k \<mapsto> OriginalLabels sw)) \<subseteq> fst ` set ?mp"
      using Cons.prems(3) keys by auto
    note r = Cons.IH[OF e o d]
    have c: "card (key ` set (sw # sws) - fst ` set mp) = Suc (card (key ` set sws - fst ` set ?mp))"
    proof -
      have "key ` set (sw # sws) - fst ` set mp = insert ?k (key ` set sws - fst ` set ?mp)"
        using new(2) keys by auto
      moreover have "?k \<notin> key ` set sws - fst ` set ?mp" using keys by simp
      ultimately show ?thesis by simp
    qed
    have p: "\<forall>k \<in> fst ` set mp. m_get sg' k = map_of mp k"
    proof
      fix k assume k: "k \<in> fst ` set mp"
      then have "k \<noteq> ?k" using new(2) by blast
      moreover have "k \<in> fst ` set ?mp" using k keys by simp
      ultimately show "m_get sg' k = map_of mp k"
        using r[THEN conjunct2, THEN conjunct2, THEN conjunct2, THEN conjunct1, THEN bspec, of k]
        by (simp add: update_conv')
    qed
    have s1: "dom M' = dom M \<union> key ` set (sw # sws)" using r by auto
    have s2: "fst ` set (m_entries sg') = fst ` set mp \<union> key ` set (sw # sws)" using r keys by auto
    have s3: "a' = a + card (key ` set (sw # sws) - fst ` set mp)" using r c by simp
    show ?thesis using r s1 s2 p s3 by simp
  qed
qed

lemma live_after_Nil [simp]: "live_after [] = []"
  by (simp add: live_after_def)

lemma live_after_snoc: "live_after (tr @ [e]) = apply_event e (live_after tr)"
  by (simp add: live_after_def)

lemma live_after_Go [simp]: "live_after (tr @ [Go_worker sc b]) = live_after tr @ [sc]"
  by (simp add: live_after_snoc apply_event_def)

lemma live_after_Close [simp]:
  "live_after (tr @ [Close c]) = filter (\<lambda>sc. stopCh sc \<noteq> c) (live_after tr)"
  by (simp add: live_after_snoc apply_event_def)

lemma live_after_other [simp]:
  "live_after (tr @ [Errorf_duplicate sw l1 l2]) = live_after tr"
  "live_after (tr @ [DroppedRegister l]) = live_after tr"
  "live_after (tr @ [TsmRegister sw]) = live_after tr"
  "live_after (tr @ [Infof_summary n x y z]) = live_after tr"
  "live_after (tr @ [WgWait]) = live_after tr"
  by (simp_all add: live_after_snoc apply_event_def)

lemma at_most_one_Nil [simp]: "at_most_one key []"
  by (simp add: at_most_one_def)

lemma at_most_one_snoc:
  "at_most_one key (tr @ [e]) \<longleftrightarrow>
     at_most_one key tr \<and> distinct (map (key_of key) (live_after (tr @ [e])))"
proof -
  have "{0..length (tr @ [e])} = insert (Suc (length tr)) {0..length tr}" by auto
  then show ?thesis by (auto simp: at_most_one_def)
qed

lemma at_most_one_last:
  "at_most_one key tr \<Longrightarrow> distinct (map (key_of key) (live_after tr))"
  by (auto simp: at_most_one_def dest: bspec[where x="length tr"])

lemma at_most_one_other [simp]:
  "at_most_one key (tr @ [Errorf_duplicate sw l1 l2]) = at_most_one key tr"
  "at_most_one key (tr @ [DroppedRegister l]) = at_most_one key tr"
  "at_most_one key (tr @ [TsmRegister sw]) = at_most_one key tr"
  "at_most_one key (tr @ [Infof_summary n x y z]) = at_most_one key tr"
  "at_most_one key (tr @ [WgWait]) = at_most_one key tr"
  by (auto simp: at_most_one_snoc dest: at_most_one_last)

lemma at_most_one_Close:
  "at_most_one key (tr @ [Close c]) = at_most_one key tr"
  by (auto simp: at_most_one_snoc distinct_map_filter dest: at_most_one_last)

lemma at_most_one_Go:
  "at_most_one key (tr @ [Go_worker sc b]) \<longleftrightarrow>
     at_most_one key tr \<and> key_of key sc \<notin> key_of key ` set (live_after tr)"
  by (auto simp: at_most_one_snoc dest: at_most_one_last)

lemma wf_new: "group_ok key (newScraperGroup name)"
  by (simp add: group_ok_def newScraperGroup_def m_entries_def)

lemma update_fresh: "k \<notin> fst ` set mp \<Longrightarrow> AList.update k v mp = mp @ [(k, v)]"
  by (induction mp) auto

lemma set_closed_chans: "set (closed_chans tr) = {c. Close c \<in> set tr}"
  by (induction tr rule: closed_chans.induct) auto

lemma snoc2: "tr @ [a, b] = (tr @ [a]) @ [b]"
  by simp

lemma live_after_pairs [simp]:
  "live_after (tr @ [Errorf_duplicate sw l1 l2, DroppedRegister l]) = live_after tr"
  "live_after (tr @ [Go_worker sc b, TsmRegister sw]) = live_after tr @ [sc]"
  unfolding snoc2 by (simp_all del: append_assoc)

lemma at_most_one_pairs:
  "at_most_one key (tr @ [Errorf_duplicate sw l1 l2, DroppedRegister l]) = at_most_one key tr"
  "at_most_one key (tr @ [Go_worker sc b, TsmRegister sw]) \<longleftrightarrow>
     at_most_one key tr \<and> key_of key sc \<notin> key_of key ` set (live_after tr)"
  unfolding snoc2 by (simp_all add: at_most_one_Go del: append_assoc)

lemma m_entries_upd [simp]:
  "m_entries (sg\<lparr>trace := t\<rparr>) = m_entries sg"
  "m_entries (sg\<lparr>nextCh := n\<rparr>) = m_entries sg"
  "m_entries (sg\<lparr>changesCount := c\<rparr>) = m_entries sg"
  "m_entries (sg\<lparr>sg_m := Some mp\<rparr>) = mp"
  "m_entries (sg\<lparr>sg_m := None\<rparr>) = []"
  by (simp_all add: m_entries_def)

lemma wf_update_step:
  assumes "group_ok key sg" "sg_m sg = Some mp" "update_step key suppress sw (M, a, sg) = Inr (M', a', sg')"
  shows "group_ok key sg'"
proof -
  let ?k = "key sw"
  consider (dup) "swsMap_get M ?k \<noteq> None"
    | (kept) "swsMap_get M ?k = None" "?k \<in> fst ` set mp"
    | (new) "swsMap_get M ?k = None" "?k \<notin> fst ` set mp" by blast
  then show ?thesis
  proof cases
    case dup
    with assms(2,3) have "sg' = sg\<lparr>trace := trace sg
                  @ (if \<not> suppress then [Errorf_duplicate sw (swsMap_get M (key sw)) (OriginalLabels sw)] else [])
                  @ [DroppedRegister (OriginalLabels sw)]\<rparr>"
      by (simp add: update_step_open del: not_None_eq)
    with assms(1) show ?thesis
      by (cases suppress) (simp_all add: group_ok_def at_most_one_pairs set_closed_chans)
  next
    case kept
    with assms(2,3) have "sg' = sg" by (simp add: update_step_open del: not_None_eq)
    with assms(1) show ?thesis by simp
  next
    case new
    let ?sc = "newScraper sw (sg_name sg) (nextCh sg)"
    have sg': "sg' = sg\<lparr>nextCh := Suc (nextCh sg),
                   trace := trace sg @ [Go_worker ?sc (worker_body ?sc sw), TsmRegister sw],
                   sg_m := Some (mp @ [(?k, ?sc)])\<rparr>"
      using new assms(2,3) by (simp add: update_step_open update_fresh del: not_None_eq)
    have me: "m_entries sg = mp" using assms(2) by (simp add: m_entries_def)
    have ch: "stopCh ?sc = nextCh sg" and ks: "key_of key ?sc = ?k"
      by (simp_all add: newScraper_def key_of_def)
    from assms(1) me have
      w1: "distinct (map fst mp)" and
      w2: "\<forall>e \<in> set mp. key_of key (snd e) = fst e" and
      w3: "set (live_after (trace sg)) = snd ` set mp" and
      w4: "distinct (map stopCh (live_after (trace sg)))" and
      w5: "\<forall>sc \<in> set (live_after (trace sg)). stopCh sc < nextCh sg \<and> Close (stopCh sc) \<notin> set (trace sg)" and
      w6: "\<forall>c. Close c \<in> set (trace sg) \<longrightarrow> c < nextCh sg" and
      w7: "at_most_one key (trace sg)"
      by (simp_all add: group_ok_def set_closed_chans)
    have n1: "distinct (map fst (mp @ [(?k, ?sc)]))" using w1 new(2) by simp
    have n2: "\<forall>e \<in> set (mp @ [(?k, ?sc)]). key_of key (snd e) = fst e" using w2 ks by simp
    have n3: "set (live_after (trace sg) @ [?sc]) = snd ` set (mp @ [(?k, ?sc)])" using w3 by simp
    have n4: "distinct (map stopCh (live_after (trace sg) @ [?sc]))" using w4 w5 ch by auto
    have nc: "Close (nextCh sg) \<notin> set (trace sg)" using w6 by blast
    have n5: "\<forall>sc \<in> set (live_after (trace sg) @ [?sc]).
                stopCh sc < Suc (nextCh sg) \<and> Close (stopCh sc) \<notin> set (trace sg)"
      using w5 ch nc by (auto simp: less_Suc_eq)
    have n6: "\<forall>c. Close c \<in> set (trace sg) \<longrightarrow> c < Suc (nextCh sg)"
      using w6 by (auto simp: less_Suc_eq)
    have "key_of key ` set (live_after (trace sg)) = fst ` set mp"
      using w2 w3 by (force simp: image_iff)
    then have n7: "at_most_one key (trace sg @ [Go_worker ?sc (worker_body ?sc sw), TsmRegister sw])"
      using w7 new(2) ks by (simp add: at_most_one_pairs)
    show ?thesis
      unfolding group_ok_def sg' using n1 n2 n3 n4 n5 n6 n7 by (simp add: set_closed_chans)
  qed
qed

lemma update_loop_rule:
  assumes "update_loop key suppress sws s = Inr s'" and "P pre s"
    and "\<And>pre sw t t'. P pre t \<Longrightarrow> update_step key suppress sw t = Inr t' \<Longrightarrow> P (pre @ [sw]) t'"
  shows "P (pre @ sws) s'"
  using assms(1,2)
proof (induction sws arbitrary: pre s)
  case Nil
  then show ?case by simp
next
  case (Cons sw sws)
  from Cons.prems(1) obtain t where t: "update_step key suppress sw s = Inr t"
    and l: "update_loop key suppress sws t = Inr s'"
    by (auto split: sum.splits)
  have "P (pre @ [sw]) t" using assms(3)[OF Cons.prems(2) t] .
  from Cons.IH[OF l this] show ?case by simp
qed

lemma update_step_keeps_open:
  "update_step key suppress sw (M, a, sg) = Inr (M', a', sg') \<Longrightarrow> sg_m sg \<noteq> None \<Longrightarrow> sg_m sg' \<noteq> None"
  by (auto simp: update_step_open split: if_splits simp del: not_None_eq)

lemma wf_update_loop:
  assumes "update_loop key suppress sws (M, a, sg) = Inr (M', a', sg')" "group_ok key sg" "sg_m sg \<noteq> None"
  shows "group_ok key sg' \<and> sg_m sg' \<noteq> None"
proof -
  let ?P = "\<lambda>(pre::ScrapeWork list) (t::swsMap \<times> nat \<times> scraperGroup). group_ok key (snd (snd t)) \<and> sg_m (snd (snd t)) \<noteq> None"
  have "?P ([] @ sws) (M', a', sg')"
  proof (rule update_loop_rule[where P = ?P, OF assms(1)])
    show "?P [] (M, a, sg)" using assms(2,3) by simp
  next
    fix pre sw t t'
    assume p: "?P pre t" and st: "update_step key suppress sw t = Inr t'"
    obtain M1 a1 sg1 where t: "t = (M1, a1, sg1)" by (cases t) auto
    obtain M2 a2 sg2 where t': "t' = (M2, a2, sg2)" by (cases t') auto
    from p t obtain mp where mp: "sg_m sg1 = Some mp" by auto
    have "group_ok key sg2" using wf_update_step[OF _ mp st[unfolded t t']] p t by simp
    moreover have "sg_m sg2 \<noteq> None" using update_step_keeps_open[OF st[unfolded t t']] mp by simp
    ultimately show "?P (pre @ [sw]) t'" using t' by simp
  qed
  then show ?thesis by simp
qed

text \<open>The second loop in closed form.\<close>

lemma filter_delete: "filter P (AList.delete k mp) = filter (\<lambda>e. fst e \<noteq> k \<and> P e) mp"
  by (induction mp) (auto simp: AList.delete_eq)

lemma delete_loop_eq:
  assumes "distinct (map (\<lambda>e. stopCh (snd e)) (dead M es))"
    and "\<forall>e \<in> set (dead M es). Close (stopCh (snd e)) \<notin> set (trace sg)"
  shows "delete_loop M es (d, sg) =
     Inr (d + length (dead M es),
          sg\<lparr>sg_m := map_option (filter (\<lambda>e'. fst e' \<notin> fst ` set (dead M es))) (sg_m sg),
             trace := trace sg @ map (\<lambda>e. Close (stopCh (snd e))) (dead M es)\<rparr>)"
  using assms
proof (induction es arbitrary: d sg)
  case Nil
  then show ?case by (simp add: dead_def option.map_ident)
next
  case (Cons e es)
  obtain k sc where e: "e = (k, sc)" by (cases e) auto
  show ?case
  proof (cases "M k = None")
    case False
    then have dd: "dead M (e # es) = dead M es" by (simp add: dead_def e del: not_None_eq)
    have st: "delete_step M e (d, sg) = Inr (d, sg)"
      using False by (simp add: delete_step_def e del: not_None_eq)
    show ?thesis using Cons.IH[of sg d] Cons.prems st unfolding dd by simp
  next
    case True
    then have dd: "dead M (e # es) = e # dead M es" by (simp add: dead_def e)
    let ?sg = "sg\<lparr>trace := trace sg @ [Close (stopCh sc)],
                   sg_m := map_option (AList.delete k) (sg_m sg)\<rparr>"
    have nc: "Close (stopCh sc) \<notin> set (trace sg)" using Cons.prems(2) dd e by simp
    have st: "delete_step M e (d, sg) = Inr (Suc d, ?sg)"
      using True nc by (simp add: delete_step_def e close_ch_def)
    have p1: "distinct (map (\<lambda>e. stopCh (snd e)) (dead M es))" using Cons.prems(1) dd by simp
    have p2: "\<forall>e \<in> set (dead M es). Close (stopCh (snd e)) \<notin> set (trace ?sg)"
      using Cons.prems dd e by (force simp: image_iff)
    have "delete_loop M (e # es) (d, sg) = delete_loop M es (Suc d, ?sg)" using st by simp
    also have "\<dots> = Inr (Suc d + length (dead M es),
          ?sg\<lparr>sg_m := map_option (filter (\<lambda>e'. fst e' \<notin> fst ` set (dead M es))) (sg_m ?sg),
             trace := trace ?sg @ map (\<lambda>e. Close (stopCh (snd e))) (dead M es)\<rparr>)"
      by (rule Cons.IH[OF p1 p2])
    also have "\<dots> = Inr (d + length (dead M (e # es)),
          sg\<lparr>sg_m := map_option (filter (\<lambda>e'. fst e' \<notin> fst ` set (dead M (e # es)))) (sg_m sg),
             trace := trace sg @ map (\<lambda>e. Close (stopCh (snd e))) (dead M (e # es))\<rparr>)"
      unfolding dd by (cases "sg_m sg") (auto simp: e filter_delete intro!: filter_cong)
    finally show ?thesis .
  qed
qed

lemma live_after_Closes:
  "live_after (tr @ map Close cs) = filter (\<lambda>sc. stopCh sc \<notin> set cs) (live_after tr)"
proof (induction cs arbitrary: tr)
  case Nil
  then show ?case by simp
next
  case (Cons c cs)
  have "live_after (tr @ map Close (c # cs)) = live_after ((tr @ [Close c]) @ map Close cs)" by simp
  also have "\<dots> = filter (\<lambda>sc. stopCh sc \<notin> set cs) (live_after (tr @ [Close c]))"
    by (rule Cons.IH)
  finally show ?case by (auto intro: filter_cong)
qed

lemma at_most_one_Closes: "at_most_one key (tr @ map Close cs) = at_most_one key tr"
proof (induction cs arbitrary: tr)
  case Nil
  then show ?case by simp
next
  case (Cons c cs)
  have "at_most_one key (tr @ map Close (c # cs)) = at_most_one key ((tr @ [Close c]) @ map Close cs)"
    by simp
  also have "\<dots> = at_most_one key (tr @ [Close c])" by (rule Cons.IH)
  finally show ?case by (simp add: at_most_one_Close)
qed

lemma wf_entries:
  assumes "group_ok key sg"
  shows "distinct (map (\<lambda>e. stopCh (snd e)) (m_entries sg))"
    and "\<forall>e \<in> set (m_entries sg). Close (stopCh (snd e)) \<notin> set (trace sg)"
    and "\<forall>e \<in> set (m_entries sg). stopCh (snd e) < nextCh sg"
proof -
  let ?es = "m_entries sg" and ?live = "live_after (trace sg)"
  from assms have
      w1: "distinct (map fst ?es)" and
      w2: "\<forall>e \<in> set ?es. key_of key (snd e) = fst e" and
      w3: "set ?live = snd ` set ?es" and
      w4: "distinct (map stopCh ?live)" and
      w5: "\<forall>sc \<in> set ?live. stopCh sc < nextCh sg \<and> Close (stopCh sc) \<notin> set (trace sg)"
    by (simp_all add: group_ok_def)
  have inj: "inj_on stopCh (set ?live)" using w4 by (simp add: distinct_map)
  have "inj_on (\<lambda>e. stopCh (snd e)) (set ?es)"
  proof (rule inj_onI)
    fix x y assume x: "x \<in> set ?es" and y: "y \<in> set ?es" and eq: "stopCh (snd x) = stopCh (snd y)"
    have "snd x \<in> set ?live" "snd y \<in> set ?live" using x y w3 by auto
    with inj eq have "snd x = snd y" by (auto dest: inj_onD)
    moreover have "fst x = fst y" using w2 x y \<open>snd x = snd y\<close> by (metis)
    ultimately show "x = y" by (simp add: prod_eq_iff)
  qed
  moreover have "distinct ?es" using w1 by (simp add: distinct_map)
  ultimately show "distinct (map (\<lambda>e. stopCh (snd e)) ?es)" by (simp add: distinct_map)
  show "\<forall>e \<in> set ?es. Close (stopCh (snd e)) \<notin> set (trace sg)" using w3 w5 by auto
  show "\<forall>e \<in> set ?es. stopCh (snd e) < nextCh sg" using w3 w5 by auto
qed

lemma closed_chans_append [simp]: "closed_chans (tr @ tr') = closed_chans tr @ closed_chans tr'"
  by (induction tr rule: closed_chans.induct) auto

lemma closed_chans_Closes [simp]: "closed_chans (map Close cs) = cs"
  by (induction cs) auto

text \<open>
  Closing the channels of the entries of the map picked by \<open>Q\<close> and dropping these entries
  keeps the invariant.
\<close>

lemma wf_close_entries:
  assumes "group_ok key sg" "sg_m sg = Some mp"
  shows "group_ok key (sg\<lparr>sg_m := Some (filter (\<lambda>e. \<not> Q e) mp),
                    trace := trace sg @ map Close (map (\<lambda>e. stopCh (snd e)) (filter Q mp))\<rparr>)"
proof -
  let ?live = "live_after (trace sg)"
  let ?cs = "map (\<lambda>e. stopCh (snd e)) (filter Q mp)"
  have me: "m_entries sg = mp" using assms(2) by (simp add: m_entries_def)
  from assms(1) me have
      w1: "distinct (map fst mp)" and
      w2: "\<forall>e \<in> set mp. key_of key (snd e) = fst e" and
      w3: "set ?live = snd ` set mp" and
      w4: "distinct (map stopCh ?live)" and
      w5: "\<forall>sc \<in> set ?live. stopCh sc < nextCh sg \<and> Close (stopCh sc) \<notin> set (trace sg)" and
      w6: "\<forall>c \<in> set (closed_chans (trace sg)). c < nextCh sg" and
      w7: "at_most_one key (trace sg)"
    by (simp_all add: group_ok_def)
  note we = wf_entries[OF assms(1), unfolded me]
  have inj: "inj_on (\<lambda>e. stopCh (snd e)) (set mp)" using we(1) by (simp add: distinct_map)
  have n1: "distinct (map fst (filter (\<lambda>e. \<not> Q e) mp))" using w1 by (rule distinct_map_filter)
  have n2: "\<forall>e \<in> set (filter (\<lambda>e. \<not> Q e) mp). key_of key (snd e) = fst e" using w2 by simp
  have n3: "set (filter (\<lambda>sc. stopCh sc \<notin> set ?cs) ?live) = snd ` set (filter (\<lambda>e. \<not> Q e) mp)"
  proof (intro set_eqI iffI)
    fix sc assume "sc \<in> set (filter (\<lambda>sc. stopCh sc \<notin> set ?cs) ?live)"
    then have l: "sc \<in> set ?live" and nc: "stopCh sc \<notin> set ?cs" by auto
    from l w3 obtain e where e: "e \<in> set mp" "snd e = sc" by auto
    have "\<not> Q e" using nc e by force
    with e show "sc \<in> snd ` set (filter (\<lambda>e. \<not> Q e) mp)" by force
  next
    fix sc assume "sc \<in> snd ` set (filter (\<lambda>e. \<not> Q e) mp)"
    then obtain e where e: "e \<in> set mp" "\<not> Q e" "snd e = sc" by auto
    have l: "sc \<in> set ?live" using e w3 by force
    have "stopCh sc \<notin> set ?cs"
    proof
      assume "stopCh sc \<in> set ?cs"
      then obtain e' where e': "e' \<in> set mp" "Q e'" "stopCh (snd e') = stopCh (snd e)"
        using e(3) by auto
      then have "e' = e" using inj e(1) by (auto dest: inj_onD)
      with e' e(2) show False by simp
    qed
    with l show "sc \<in> set (filter (\<lambda>sc. stopCh sc \<notin> set ?cs) ?live)" by simp
  qed
  have n4: "distinct (map stopCh (filter (\<lambda>sc. stopCh sc \<notin> set ?cs) ?live))"
    using w4 by (rule distinct_map_filter)
  have n5: "\<forall>sc \<in> set (filter (\<lambda>sc. stopCh sc \<notin> set ?cs) ?live).
              stopCh sc < nextCh sg \<and> Close (stopCh sc) \<notin> set (trace sg) \<and> stopCh sc \<notin> set ?cs"
    using w5 by simp
  have n6: "\<forall>c \<in> set (closed_chans (trace sg)) \<union> set ?cs. c < nextCh sg"
    using w6 we(3) by auto
  have n7: "at_most_one key (trace sg @ map Close ?cs)" using w7 by (simp only: at_most_one_Closes)
  show ?thesis
    unfolding group_ok_def using n1 n2 n3 n4 n5 n6 n7
    by (simp add: live_after_Closes del: map_map) (auto simp: image_iff)
qed

lemma dead_filter_eq:
  "filter (\<lambda>e'. fst e' \<notin> fst ` set (dead M mp)) mp = filter (\<lambda>e. M (fst e) \<noteq> None) mp"
  by (rule filter_cong) (auto simp: dead_def image_iff simp del: not_None_eq)

lemma delete_loop_wf:
  assumes "group_ok key sg" "sg_m sg = Some mp"
  shows "delete_loop M mp (d, sg) =
     Inr (d + length (dead M mp),
          sg\<lparr>sg_m := Some (filter (\<lambda>e. M (fst e) \<noteq> None) mp),
             trace := trace sg @ map Close (map (\<lambda>e. stopCh (snd e)) (dead M mp))\<rparr>)"
    and "group_ok key (sg\<lparr>sg_m := Some (filter (\<lambda>e. M (fst e) \<noteq> None) mp),
             trace := trace sg @ map Close (map (\<lambda>e. stopCh (snd e)) (dead M mp))\<rparr>)"
proof -
  have me: "m_entries sg = mp" using assms(2) by (simp add: m_entries_def)
  note we = wf_entries[OF assms(1), unfolded me]
  have p1: "distinct (map (\<lambda>e. stopCh (snd e)) (dead M mp))"
    unfolding dead_def using we(1) by (rule distinct_map_filter)
  have p2: "\<forall>e \<in> set (dead M mp). Close (stopCh (snd e)) \<notin> set (trace sg)"
    using we(2) by (simp add: dead_def)
  show "delete_loop M mp (d, sg) =
     Inr (d + length (dead M mp),
          sg\<lparr>sg_m := Some (filter (\<lambda>e. M (fst e) \<noteq> None) mp),
             trace := trace sg @ map Close (map (\<lambda>e. stopCh (snd e)) (dead M mp))\<rparr>)"
    unfolding delete_loop_eq[OF p1 p2] by (simp add: assms(2) dead_filter_eq del: not_None_eq)
  show "group_ok key (sg\<lparr>sg_m := Some (filter (\<lambda>e. M (fst e) \<noteq> None) mp),
             trace := trace sg @ map Close (map (\<lambda>e. stopCh (snd e)) (dead M mp))\<rparr>)"
    using wf_close_entries[OF assms, of "\<lambda>e. M (fst e) = None"] by (simp add: dead_def del: not_None_eq)
qed

lemma wf_report: "group_ok key (report (a, d, sg)) = group_ok key sg"
  by (simp add: report_def group_ok_def)

lemma report_fields [simp]:
  "sg_m (report (a, d, sg)) = sg_m sg"
  "m_entries (report (a, d, sg)) = m_entries sg"
  "m_get (report (a, d, sg)) k = m_get sg k"
  "changesCount (report (a, d, sg)) = changesCount sg + a + d"
  "nextCh (report (a, d, sg)) = nextCh sg"
  by (simp_all add: report_def m_get_def m_entries_def)

lemma close_all_eq:
  assumes "distinct (map (\<lambda>e. stopCh (snd e)) es)"
    and "\<forall>e \<in> set es. Close (stopCh (snd e)) \<notin> set (trace sg)"
  shows "close_all es sg = Inr (sg\<lparr>trace := trace sg @ map Close (map (\<lambda>e. stopCh (snd e)) es)\<rparr>)"
  using assms
proof (induction es arbitrary: sg)
  case Nil
  then show ?case by simp
next
  case (Cons e es)
  obtain k sc where e: "e = (k, sc)" by (cases e) auto
  let ?sg = "sg\<lparr>trace := trace sg @ [Close (stopCh sc)]\<rparr>"
  have c: "close_ch (stopCh sc) sg = Inr ?sg" using Cons.prems(2) by (simp add: close_ch_def e)
  have p1: "distinct (map (\<lambda>e. stopCh (snd e)) es)" using Cons.prems(1) by simp
  have p2: "\<forall>e \<in> set es. Close (stopCh (snd e)) \<notin> set (trace ?sg)"
    using Cons.prems e by (force simp: image_iff)
  show ?case using Cons.IH[OF p1 p2] c by (simp add: e)
qed

lemma stop_wf:
  assumes "group_ok key sg"
  shows "stop sg = Inr (sg\<lparr>sg_m := None,
            trace := trace sg @ map Close (map (\<lambda>e. stopCh (snd e)) (m_entries sg)) @ [WgWait]\<rparr>)"
    and "group_ok key (sg\<lparr>sg_m := None,
            trace := trace sg @ map Close (map (\<lambda>e. stopCh (snd e)) (m_entries sg)) @ [WgWait]\<rparr>)"
proof -
  note we = wf_entries[OF assms]
  show "stop sg = Inr (sg\<lparr>sg_m := None,
            trace := trace sg @ map Close (map (\<lambda>e. stopCh (snd e)) (m_entries sg)) @ [WgWait]\<rparr>)"
    by (simp add: stop_def close_all_eq[OF we(1,2)])
  let ?cs = "map (\<lambda>e. stopCh (snd e)) (m_entries sg)"
  from assms have
      w3: "set (live_after (trace sg)) = snd ` set (m_entries sg)" and
      w6: "\<forall>c \<in> set (closed_chans (trace sg)). c < nextCh sg" and
      w7: "at_most_one key (trace sg)"
    by (simp_all add: group_ok_def)
  have l: "live_after ((trace sg @ map Close ?cs) @ [WgWait]) = []"
    using w3 by (simp add: live_after_Closes del: append_assoc map_map)
  have a: "at_most_one key ((trace sg @ map Close ?cs) @ [WgWait])"
    using w7 by (simp add: at_most_one_Closes del: append_assoc map_map)
  have c: "\<forall>c \<in> set (closed_chans ((trace sg @ map Close ?cs) @ [WgWait])). c < nextCh sg"
    using w6 we(3) by (auto simp del: map_map)
  show "group_ok key (sg\<lparr>sg_m := None,
            trace := trace sg @ map Close ?cs @ [WgWait]\<rparr>)"
    using l a c by (simp add: group_ok_def)
qed

lemma wf_update:
  assumes "group_ok key sg"
  shows "case update key suppress sws sg of Inr sg' \<Rightarrow> group_ok key sg' \<and> (sg_m sg' = None \<longleftrightarrow> sg_m sg = None)
         | Inl (p, sg') \<Rightarrow> sg_m sg = None"
proof (cases "sg_m sg")
  case None
  show ?thesis
  proof (cases sws)
    case Nil
    then show ?thesis using None assms by (simp add: update_def update_diff_def m_entries_def wf_report)
  next
    case (Cons sw sws')
    then show ?thesis using None
      by (simp add: update_def update_diff_def update_step_def swsMap_get_def m_get_def Let_def)
  qed
next
  case (Some mp)
  obtain M a sg1 where l: "update_loop key suppress sws (Map.empty, 0, sg) = Inr (M, a, sg1)"
    using update_loop_returns[where sg = sg and key = key and suppress = suppress and sws = sws
        and M = Map.empty and a = 0] Some by auto
  from wf_update_loop[OF l assms] Some obtain mp1 where w1: "group_ok key sg1" and mp1: "sg_m sg1 = Some mp1"
    by auto
  have me: "m_entries sg1 = mp1" using mp1 by (simp add: m_entries_def)
  show ?thesis
    using delete_loop_wf(1)[OF w1 mp1, where M = M and d = 0]
      delete_loop_wf(2)[OF w1 mp1, where M = M] Some
    by (simp add: update_def update_diff_def l me wf_report del: not_None_eq)
qed

lemma wf_run_ops:
  "group_ok key sg \<Longrightarrow> run_ops key suppress ops sg = Inr sg' \<Longrightarrow> group_ok key sg'"
proof (induction ops arbitrary: sg)
  case Nil
  then show ?case by simp
next
  case (Cons x ops)
  show ?case
  proof (cases x)
    case (Update sws)
    with Cons.prems(2) obtain sg1 where u: "update key suppress sws sg = Inr sg1"
      and r: "run_ops key suppress ops sg1 = Inr sg'" by (auto split: sum.splits)
    have "group_ok key sg1" using wf_update[OF Cons.prems(1), of suppress sws] u by simp
    then show ?thesis using Cons.IH r by blast
  next
    case Stop
    with Cons.prems(2) obtain sg1 where u: "stop sg = Inr sg1"
      and r: "run_ops key suppress ops sg1 = Inr sg'" by (auto split: sum.splits)
    have "group_ok key sg1" using stop_wf[OF Cons.prems(1)] u by simp
    then show ?thesis using Cons.IH r by blast
  qed
qed

lemma find_snoc:
  "find P (xs @ [x]) = (case find P xs of None \<Rightarrow> (if P x then Some x else None) | Some y \<Rightarrow> Some y)"
  by (induction xs) auto

text \<open>The scraper started for a new key is the one of the first entry with that key.\<close>

lemma update_loop_first:
  assumes l: "update_loop key suppress sws (Map.empty, 0, sg) = Inr (M', a', sg')"
    and o: "sg_m sg = Some mp"
  shows "\<forall>k. k \<notin> fst ` set mp \<longrightarrow> k \<in> key ` set sws \<longrightarrow>
           (\<exists>sc. m_get sg' k = Some sc \<and> find (\<lambda>sw. key sw = k) sws = Some (sw_Config sc))"
proof -
  let ?P = "\<lambda>(pre::ScrapeWork list) (t::swsMap \<times> nat \<times> scraperGroup).
      sg_m (snd (snd t)) \<noteq> None \<and> dom (fst t) = key ` set pre
      \<and> fst ` set (m_entries (snd (snd t))) = fst ` set mp \<union> key ` set pre
      \<and> (\<forall>k. k \<notin> fst ` set mp \<longrightarrow> k \<in> key ` set pre \<longrightarrow>
           (\<exists>sc. m_get (snd (snd t)) k = Some sc \<and> find (\<lambda>sw. key sw = k) pre = Some (sw_Config sc)))"
  have "?P ([] @ sws) (M', a', sg')"
  proof (rule update_loop_rule[where P = ?P, OF l])
    show "?P [] (Map.empty, 0, sg)" using o by (simp add: m_entries_def)
  next
    fix pre sw t t'
    assume p: "?P pre t" and st: "update_step key suppress sw t = Inr t'"
    obtain M1 a1 sg1 where t: "t = (M1, a1, sg1)" by (cases t) auto
    obtain M2 a2 sg2 where t': "t' = (M2, a2, sg2)" by (cases t') auto
    from p t obtain mp1 where mp1: "sg_m sg1 = Some mp1" by auto
    have me: "m_entries sg1 = mp1" using mp1 by (simp add: m_entries_def)
    from p t me have dM: "dom M1 = key ` set pre"
      and ks: "fst ` set mp1 = fst ` set mp \<union> key ` set pre"
      and fo: "\<And>k. k \<notin> fst ` set mp \<Longrightarrow> k \<in> key ` set pre \<Longrightarrow>
             \<exists>sc. m_get sg1 k = Some sc \<and> find (\<lambda>sw. key sw = k) pre = Some (sw_Config sc)"
      by auto
    let ?k = "key sw"
    note st' = st[unfolded t t' update_step_open[OF mp1]]
    consider (dup) "swsMap_get M1 ?k \<noteq> None"
      | (kept) "swsMap_get M1 ?k = None" "?k \<in> fst ` set mp1"
      | (new) "swsMap_get M1 ?k = None" "?k \<notin> fst ` set mp1" by blast
    then show "?P (pre @ [sw]) t'"
    proof cases
      case dup
      then have kM: "?k \<in> key ` set pre" using dM by (auto simp: swsMap_get_def split: option.splits)
      from dup st' have e: "M2 = M1" "sg_m sg2 = sg_m sg1" "m_entries sg2 = mp1" "\<And>k. m_get sg2 k = m_get sg1 k"
        by (auto simp: m_get_def me simp del: not_None_eq)
      have f: "\<And>k. k \<in> key ` set pre \<Longrightarrow> find (\<lambda>sw. key sw = k) (pre @ [sw]) = find (\<lambda>sw. key sw = k) pre"
        by (auto simp: find_snoc find_None_iff split: option.splits)
      have s: "key ` set (pre @ [sw]) = key ` set pre" using kM by auto
      show ?thesis unfolding t' s using e mp1 dM ks fo f by simp
    next
      case kept
      from kept st' have e: "M2 = M1(?k \<mapsto> OriginalLabels sw)" "sg2 = sg1"
        by (auto simp del: not_None_eq)
      have f: "\<And>k. k \<in> key ` set pre \<Longrightarrow> find (\<lambda>sw. key sw = k) (pre @ [sw]) = find (\<lambda>sw. key sw = k) pre"
        by (auto simp: find_snoc find_None_iff split: option.splits)
      have d2: "dom M2 = key ` set (pre @ [sw])" using e dM by auto
      have k2: "fst ` set mp1 = fst ` set mp \<union> key ` set (pre @ [sw])" using ks kept(2) by auto
      have "\<exists>sc. m_get sg1 k = Some sc \<and> find (\<lambda>sw. key sw = k) (pre @ [sw]) = Some (sw_Config sc)"
        if "k \<notin> fst ` set mp" "k \<in> key ` set (pre @ [sw])" for k
      proof -
        have "k \<in> key ` set pre" using that kept(2) ks by auto
        then show ?thesis using fo[OF that(1)] f by simp
      qed
      then show ?thesis unfolding t' using e mp1 me d2 k2 by simp
    next
      case new
      let ?sc = "newScraper sw (sg_name sg1) (nextCh sg1)"
      from new st' have e: "M2 = M1(?k \<mapsto> OriginalLabels sw)" "sg_m sg2 = Some (AList.update ?k ?sc mp1)"
        by (auto simp del: not_None_eq)
      have kn: "?k \<notin> key ` set pre" "?k \<notin> fst ` set mp" using new(2) ks by auto
      have f: "\<And>k. k \<in> key ` set pre \<Longrightarrow> find (\<lambda>sw. key sw = k) (pre @ [sw]) = find (\<lambda>sw. key sw = k) pre"
        by (auto simp: find_snoc find_None_iff split: option.splits)
      have "find (\<lambda>sw'. key sw' = ?k) pre = None"
        using kn(1) by (force simp: find_None_iff image_iff)
      then have fk: "find (\<lambda>sw'. key sw' = ?k) (pre @ [sw]) = Some sw"
        by (simp add: find_snoc)
      have d2: "dom M2 = key ` set (pre @ [sw])" using e dM by auto
      have me2: "m_entries sg2 = AList.update ?k ?sc mp1" using e(2) by (simp add: m_entries_def)
      have k2: "fst ` set (m_entries sg2) = fst ` set mp \<union> key ` set (pre @ [sw])"
        unfolding me2 using ks by (auto simp: dom_update)
      have g: "\<And>k. m_get sg2 k = (if k = ?k then Some ?sc else m_get sg1 k)"
        using e(2) mp1 by (simp add: m_get_def update_conv')
      have "\<exists>sc. m_get sg2 k = Some sc \<and> find (\<lambda>sw. key sw = k) (pre @ [sw]) = Some (sw_Config sc)"
        if "k \<notin> fst ` set mp" "k \<in> key ` set (pre @ [sw])" for k
      proof (cases "k = ?k")
        case True
        then show ?thesis using g fk by (simp add: newScraper_def)
      next
        case False
        then have "k \<in> key ` set pre" using that(2) by auto
        then show ?thesis using fo[OF that(1)] f g False by simp
      qed
      then show ?thesis unfolding t' using e d2 k2 by simp
    qed
  qed
  then show ?thesis by simp
qed

lemma spawn_register_ok_append:
  "spawn_register_ok a \<Longrightarrow> spawn_register_ok b \<Longrightarrow> spawn_register_ok (a @ b)"
  by (induction a rule: spawn_register_ok.induct) auto

lemma spawn_register_ok_Closes [simp]: "spawn_register_ok (map Close cs)"
  by (induction cs) auto

lemma update_loop_trace:
  assumes l: "update_loop key suppress sws (M, a, sg) = Inr (M', a', sg')"
    and o: "sg_m sg = Some mp"
  shows "\<exists>ev. trace sg' = trace sg @ ev \<and> spawn_register_ok ev \<and> closed_chans ev = []
           \<and> (\<forall>sc body. Go_worker sc body \<in> set ev \<longrightarrow> key_of key sc \<notin> fst ` set mp)"
proof -
  let ?P = "\<lambda>(pre::ScrapeWork list) (t::swsMap \<times> nat \<times> scraperGroup).
      sg_m (snd (snd t)) \<noteq> None \<and> fst ` set mp \<subseteq> fst ` set (m_entries (snd (snd t)))
      \<and> (\<exists>ev. trace (snd (snd t)) = trace sg @ ev \<and> spawn_register_ok ev \<and> closed_chans ev = []
           \<and> (\<forall>sc body. Go_worker sc body \<in> set ev \<longrightarrow> key_of key sc \<notin> fst ` set mp))"
  have "?P ([] @ sws) (M', a', sg')"
  proof (rule update_loop_rule[where P = ?P, OF l])
    show "?P [] (M, a, sg)" using o by (simp add: m_entries_def)
  next
    fix pre sw t t'
    assume p: "?P pre t" and st: "update_step key suppress sw t = Inr t'"
    obtain M1 a1 sg1 where t: "t = (M1, a1, sg1)" by (cases t) auto
    obtain M2 a2 sg2 where t': "t' = (M2, a2, sg2)" by (cases t') auto
    from p t obtain mp1 where mp1: "sg_m sg1 = Some mp1" by auto
    have me: "m_entries sg1 = mp1" using mp1 by (simp add: m_entries_def)
    from p t me obtain ev where ks: "fst ` set mp \<subseteq> fst ` set mp1"
      and ev: "trace sg1 = trace sg @ ev" "spawn_register_ok ev" "closed_chans ev = []"
         "\<forall>sc body. Go_worker sc body \<in> set ev \<longrightarrow> key_of key sc \<notin> fst ` set mp"
      by auto
    let ?k = "key sw"
    let ?sc = "newScraper sw (sg_name sg1) (nextCh sg1)"
    note st' = st[unfolded t t' update_step_open[OF mp1]]
    define ev1 where "ev1 =
       (if swsMap_get M1 ?k \<noteq> None then
          (if \<not> suppress then [Errorf_duplicate sw (swsMap_get M1 ?k) (OriginalLabels sw)] else [])
            @ [DroppedRegister (OriginalLabels sw)]
        else if ?k \<in> fst ` set mp1 then []
        else [Go_worker ?sc (worker_body ?sc sw), TsmRegister sw])"
    have tr2: "trace sg2 = trace sg1 @ ev1"
      using st' by (auto simp: ev1_def split: if_splits simp del: not_None_eq)
    have ok1: "spawn_register_ok ev1" "closed_chans ev1 = []"
      by (auto simp: ev1_def worker_body_def newScraper_def)
    have go1: "\<forall>sc body. Go_worker sc body \<in> set ev1 \<longrightarrow> key_of key sc \<notin> fst ` set mp"
      using ks by (auto simp: ev1_def key_of_def newScraper_def)
    have o2a: "sg_m sg2 \<noteq> None"
      "m_entries sg2 = mp1 \<or> m_entries sg2 = AList.update ?k ?sc mp1"
      using st' mp1 by (auto simp: m_entries_def split: if_splits simp del: not_None_eq)
    have "fst ` set (m_entries sg2) = fst ` set mp1
        \<or> fst ` set (m_entries sg2) = {?k} \<union> fst ` set mp1"
      using o2a(2) by (elim disjE) (simp_all add: dom_update)
    then have "fst ` set mp1 \<subseteq> fst ` set (m_entries sg2)" by blast
    then have o2: "sg_m sg2 \<noteq> None" "fst ` set mp \<subseteq> fst ` set (m_entries sg2)"
      using o2a(1) ks by blast+
    have "trace sg2 = trace sg @ (ev @ ev1)" using tr2 ev(1) by simp
    moreover have "spawn_register_ok (ev @ ev1)" using ev(2) ok1(1) by (rule spawn_register_ok_append)
    moreover have "closed_chans (ev @ ev1) = []" using ev(3) ok1(2) by simp
    moreover have "\<forall>sc body. Go_worker sc body \<in> set (ev @ ev1) \<longrightarrow> key_of key sc \<notin> fst ` set mp"
      using ev(4) go1 by auto
    ultimately show "?P (pre @ [sw]) t'" unfolding t' using o2 by (simp del: not_None_eq) blast
  qed
  then show ?thesis by simp
qed

lemma map_of_filter_key:
  "map_of (filter (\<lambda>e. P (fst e)) xs) k = (if P k then map_of xs k else None)"
  by (induction xs) auto

lemma length_filter_keys:
  assumes "distinct (map fst xs)"
  shows "length (filter (\<lambda>e. P (fst e)) xs) = card {k \<in> fst ` set xs. P k}"
proof -
  have "distinct (filter P (map fst xs))" using assms by simp
  then have "card (set (filter P (map fst xs))) = length (filter P (map fst xs))"
    by (rule distinct_card)
  moreover have "length (filter P (map fst xs)) = length (filter (\<lambda>e. P (fst e)) xs)"
    by (simp add: filter_map comp_def)
  moreover have "set (filter P (map fst xs)) = {k \<in> fst ` set xs. P k}" by auto
  ultimately show ?thesis by simp
qed

text \<open>Everything a reconcile does on an open group that satisfies the invariant.\<close>

lemma update_open:
  assumes w: "group_ok key sg" and o: "sg_m sg = Some mp"
  obtains a d sg' mp' ev where
    "update_diff key suppress sws sg = Inr (a, d, sg')"
    "update key suppress sws sg = Inr (report (a, d, sg'))"
    "group_ok key sg'" "sg_m sg' = Some mp'"
    "fst ` set mp' = key ` set sws"
    "\<forall>k \<in> fst ` set mp \<inter> key ` set sws. map_of mp' k = map_of mp k"
    "\<forall>k. k \<notin> fst ` set mp \<longrightarrow> k \<in> key ` set sws \<longrightarrow>
       (\<exists>sc. map_of mp' k = Some sc \<and> find (\<lambda>sw. key sw = k) sws = Some (sw_Config sc))"
    "a = card (key ` set sws - fst ` set mp)"
    "d = card (fst ` set mp - key ` set sws)"
    "trace sg' = trace sg @ ev" "spawn_register_ok ev"
    "\<forall>sc body. Go_worker sc body \<in> set ev \<longrightarrow> key_of key sc \<notin> fst ` set mp"
proof -
  let ?K = "key ` set sws"
  obtain M a sg1 where l: "update_loop key suppress sws (Map.empty, 0, sg) = Inr (M, a, sg1)"
    using update_loop_returns[where sg = sg and key = key and suppress = suppress and sws = sws
        and M = Map.empty and a = 0] o by auto
  from wf_update_loop[OF l w] o obtain mp1 where w1: "group_ok key sg1" and mp1: "sg_m sg1 = Some mp1"
    by auto
  have me1: "m_entries sg1 = mp1" using mp1 by (simp add: m_entries_def)
  have g1: "\<And>k. m_get sg1 k = map_of mp1 k" using mp1 by (simp add: m_get_def)
  from update_loop_open[OF l o] me1 g1 have
    dM: "dom M = ?K" and ks1: "fst ` set mp1 = fst ` set mp \<union> ?K"
    and keep: "\<forall>k \<in> fst ` set mp. map_of mp1 k = map_of mp k"
    and a: "a = card (?K - fst ` set mp)"
    by simp_all
  from update_loop_first[OF l o] g1 have
    first: "\<forall>k. k \<notin> fst ` set mp \<longrightarrow> k \<in> ?K \<longrightarrow>
       (\<exists>sc. map_of mp1 k = Some sc \<and> find (\<lambda>sw. key sw = k) sws = Some (sw_Config sc))"
    by simp
  from update_loop_trace[OF l o] obtain ev1 where
    ev1: "trace sg1 = trace sg @ ev1" "spawn_register_ok ev1"
      "\<forall>sc body. Go_worker sc body \<in> set ev1 \<longrightarrow> key_of key sc \<notin> fst ` set mp"
    by blast
  let ?mp' = "filter (\<lambda>e. M (fst e) \<noteq> None) mp1"
  let ?cs = "map (\<lambda>e. stopCh (snd e)) (dead M mp1)"
  let ?sg' = "sg1\<lparr>sg_m := Some ?mp', trace := trace sg1 @ map Close ?cs\<rparr>"
  note dl = delete_loop_wf(1)[OF w1 mp1, where M = M and d = 0]
  note w' = delete_loop_wf(2)[OF w1 mp1, where M = M]
  have inK: "\<And>k. M k \<noteq> None \<longleftrightarrow> k \<in> ?K" using dM by (metis domIff)
  have d1: "distinct (map fst mp1)" using w1 me1 by (simp add: group_ok_def)
  have ud: "update_diff key suppress sws sg = Inr (a, length (dead M mp1), ?sg')"
    by (simp add: update_diff_def l me1 dl del: not_None_eq)
  have u: "update key suppress sws sg = Inr (report (a, length (dead M mp1), ?sg'))"
    by (simp add: update_def ud)
  have o': "sg_m ?sg' = Some ?mp'" by simp
  have ks': "fst ` set ?mp' = ?K"
  proof -
    have "fst ` set ?mp' = {k \<in> fst ` set mp1. M k \<noteq> None}" by auto
    then show ?thesis unfolding inK ks1 by blast
  qed
  have keep': "\<forall>k \<in> fst ` set mp \<inter> ?K. map_of ?mp' k = map_of mp k"
  proof
    fix k assume k: "k \<in> fst ` set mp \<inter> ?K"
    then have "M k \<noteq> None" using inK by blast
    then have "map_of ?mp' k = map_of mp1 k"
      using map_of_filter_key[of "\<lambda>k. M k \<noteq> None" mp1 k] by (simp del: not_None_eq)
    also have "\<dots> = map_of mp k" using keep k by blast
    finally show "map_of ?mp' k = map_of mp k" .
  qed
  have first': "\<forall>k. k \<notin> fst ` set mp \<longrightarrow> k \<in> ?K \<longrightarrow>
       (\<exists>sc. map_of ?mp' k = Some sc \<and> find (\<lambda>sw. key sw = k) sws = Some (sw_Config sc))"
  proof (intro allI impI)
    fix k assume k: "k \<notin> fst ` set mp" "k \<in> ?K"
    then have "M k \<noteq> None" using inK by blast
    then have "map_of ?mp' k = map_of mp1 k"
      using map_of_filter_key[of "\<lambda>k. M k \<noteq> None" mp1 k] by (simp del: not_None_eq)
    then show "\<exists>sc. map_of ?mp' k = Some sc \<and> find (\<lambda>sw. key sw = k) sws = Some (sw_Config sc)"
      using first k by simp
  qed
  have d: "length (dead M mp1) = card (fst ` set mp - ?K)"
  proof -
    have inN: "\<And>k. M k = None \<longleftrightarrow> k \<notin> ?K" using dM by (metis domIff)
    have "dead M mp1 = filter (\<lambda>e. fst e \<notin> ?K) mp1"
      unfolding dead_def by (intro filter_cong) (simp_all only: inN)
    then have "length (dead M mp1) = card {k \<in> fst ` set mp1. k \<notin> ?K}"
      using length_filter_keys[OF d1, of "\<lambda>k. k \<notin> ?K"] by simp
    also have "{k \<in> fst ` set mp1. k \<notin> ?K} = fst ` set mp - ?K" unfolding ks1 by blast
    finally show ?thesis .
  qed
  have tr: "trace ?sg' = trace sg @ (ev1 @ map Close ?cs)" using ev1(1) by simp
  have ok: "spawn_register_ok (ev1 @ map Close ?cs)"
    using ev1(2) spawn_register_ok_Closes by (rule spawn_register_ok_append)
  have go: "\<forall>sc body. Go_worker sc body \<in> set (ev1 @ map Close ?cs) \<longrightarrow> key_of key sc \<notin> fst ` set mp"
    using ev1(3) by auto
  show thesis
    by (rule that[OF ud u w' o' ks' keep' first' a d tr ok go])
qed

lemma update_closed_Nil: "sg_m sg = None \<Longrightarrow> update key suppress [] sg = Inr sg"
  by (simp add: update_def update_diff_def m_entries_def report_def)

lemma update_closed_Cons:
  "sg_m sg = None \<Longrightarrow> update key suppress (sw # sws) sg =
     Inl (AssignNilMap,
          sg\<lparr>nextCh := Suc (nextCh sg),
             trace := trace sg @ [Go_worker (newScraper sw (sg_name sg) (nextCh sg))
                                    (worker_body (newScraper sw (sg_name sg) (nextCh sg)) sw),
                                  TsmRegister sw]\<rparr>)"
  by (simp add: update_def update_diff_def update_step_def swsMap_get_def m_get_def Let_def)

lemma wf_reachable:
  "run_ops key suppress ops (newScraperGroup name) = Inr sg \<Longrightarrow> group_ok key sg"
  using wf_run_ops wf_new by blast

lemmas eval_defs = update_def update_diff_def update_step_def delete_step_def report_def
  swsMap_get_def m_get_def m_entries_def close_ch_def newScraper_def worker_body_def
  newScraperGroup_def stop_def Let_def

lemma run_sg_b:
  "run_ops ScrapeURL False [Update [sw_b]] (newScraperGroup ''static_configs'') = Inr sg_b"
  by (simp add: eval_defs sg_b_def sc_b_def sw_b_def)

section \<open>The reconcile of a scraper group\<close>

text \<open>
  C1. Let \<open>sg\<close> be a group reached from a new group by any sequence of \<open>update\<close> and
  \<open>stop\<close> calls. If \<open>sg\<close> has not been stopped, \<open>update sws\<close> returns; and whenever
  \<open>update sws\<close> returns, the keys of the live map are exactly the keys of the entries of
  \<open>sws\<close>, each key once, and a scraper started by this call for a key holds the first entry
  of \<open>sws\<close> with that key.
\<close>

theorem update_live_keys:
  assumes r: "run_ops key suppress ops (newScraperGroup name) = Inr sg"
  shows "(sg_m sg \<noteq> None \<longrightarrow> (\<exists>sg'. update key suppress sws sg = Inr sg'))
       \<and> (\<forall>sg'. update key suppress sws sg = Inr sg' \<longrightarrow>
            fst ` set (m_entries sg') = key ` set sws
          \<and> distinct (map fst (m_entries sg'))
          \<and> (\<forall>k sc. m_get sg k = None \<and> m_get sg' k = Some sc \<longrightarrow>
                find (\<lambda>sw. key sw = k) sws = Some (sw_Config sc)))"
proof (cases "sg_m sg")
  case None
  show ?thesis
  proof (cases sws)
    case Nil
    then show ?thesis using None by (simp add: update_closed_Nil m_entries_def m_get_def)
  next
    case (Cons sw sws')
    then show ?thesis using None by (simp add: update_closed_Cons)
  qed
next
  case (Some mp)
  have w: "group_ok key sg" using r by (rule wf_reachable)
  obtain a d sg1 mp' ev where
    u: "update key suppress sws sg = Inr (report (a, d, sg1))" and
    w': "group_ok key sg1" and o': "sg_m sg1 = Some mp'" and
    ks: "fst ` set mp' = key ` set sws" and
    first: "\<forall>k. k \<notin> fst ` set mp \<longrightarrow> k \<in> key ` set sws \<longrightarrow>
       (\<exists>sc. map_of mp' k = Some sc \<and> find (\<lambda>sw. key sw = k) sws = Some (sw_Config sc))"
    by (rule update_open[OF w Some, of suppress sws])
  have me: "m_entries sg1 = mp'" using o' by (simp add: m_entries_def)
  have d: "distinct (map fst mp')" using w' me by (simp add: group_ok_def)
  have f: "find (\<lambda>sw. key sw = k) sws = Some (sw_Config sc)"
    if "m_get sg k = None" "m_get (report (a, d, sg1)) k = Some sc" for k sc
  proof -
    have k1: "k \<notin> fst ` set mp" using that(1) Some by (simp add: m_get_def map_of_eq_None_iff)
    have g: "map_of mp' k = Some sc" using that(2) o' by (simp add: m_get_def)
    then have "k \<in> fst ` set mp'" by (metis map_of_eq_None_iff option.distinct(1))
    then have "k \<in> key ` set sws" using ks by simp
    with first k1 g show ?thesis by auto
  qed
  show ?thesis using u ks d f Some by (simp add: me)
qed

theorem update_live_keys_witness:
  "run_ops ScrapeURL False [Update [sw_b]] (newScraperGroup ''static_configs'') = Inr sg_b
   \<and> sg_m sg_b \<noteq> None
   \<and> (\<exists>sg'. update ScrapeURL False [sw_a, sw_a_dup] sg_b = Inr sg'
          \<and> fst ` set (m_entries sg') = {''http://a/metrics''})"
proof -
  have h: "run_ops ScrapeURL False [Update [sw_b]] (newScraperGroup ''static_configs'') = Inr sg_b"
    by (simp add: eval_defs sg_b_def sc_b_def sw_b_def)
  have o: "sg_m sg_b \<noteq> None" by (simp add: sg_b_def)
  have k: "ScrapeURL ` set [sw_a, sw_a_dup] = {''http://a/metrics''}"
    by (simp add: sw_a_def sw_a_dup_def)
  note t = update_live_keys[OF h, of "[sw_a, sw_a_dup]", unfolded k]
  from t[THEN conjunct1, rule_format, OF o] obtain sg' where
    u: "update ScrapeURL False [sw_a, sw_a_dup] sg_b = Inr sg'" ..
  from t[THEN conjunct2, rule_format, OF u] have "fst ` set (m_entries sg') = {''http://a/metrics''}"
    by (rule conjunct1)
  with h o u show ?thesis by blast
qed

lemma run_ops_panic:
  "group_ok key sg \<Longrightarrow> run_ops key suppress ops sg = Inl (p, sg') \<Longrightarrow> at_most_one key (trace sg')"
proof (induction ops arbitrary: sg)
  case Nil
  then show ?case by simp
next
  case (Cons x ops)
  show ?case
  proof (cases x)
    case (Update sws)
    show ?thesis
    proof (cases "update key suppress sws sg")
      case (Inr sg1)
      have "group_ok key sg1" using wf_update[OF Cons.prems(1), of suppress sws] Inr by simp
      moreover have "run_ops key suppress ops sg1 = Inl (p, sg')"
        using Cons.prems(2) Update Inr by simp
      ultimately show ?thesis using Cons.IH by blast
    next
      case (Inl e)
      then have e: "e = (p, sg')" using Cons.prems(2) Update by simp
      have c: "sg_m sg = None" using wf_update[OF Cons.prems(1), of suppress sws] Inl e by simp
      then obtain sw sws' where sws: "sws = sw # sws'"
        using Inl by (cases sws) (simp_all add: update_closed_Nil)
      have l: "live_after (trace sg) = []" using Cons.prems(1) c by (simp add: group_ok_def m_entries_def)
      have a: "at_most_one key (trace sg)" using Cons.prems(1) by (simp add: group_ok_def)
      have "trace sg' = trace sg @ [Go_worker (newScraper sw (sg_name sg) (nextCh sg))
                                    (worker_body (newScraper sw (sg_name sg) (nextCh sg)) sw),
                                  TsmRegister sw]"
        using Inl e sws by (auto simp: update_closed_Cons[OF c])
      then show ?thesis using a l by (simp add: at_most_one_pairs)
    qed
  next
    case Stop
    from stop_wf[OF Cons.prems(1)] obtain sg1 where s: "stop sg = Inr sg1" and w: "group_ok key sg1"
      by blast
    then have "run_ops key suppress ops sg1 = Inl (p, sg')" using Cons.prems(2) Stop by simp
    then show ?thesis using Cons.IH w by blast
  qed
qed

text \<open>
  C2. Take any sequence of \<open>update\<close> and \<open>stop\<close> calls on a new group, up to its end or
  up to the call that panics. At every instant of it (every prefix of the trace of effects) the
  scrapers that have been started and whose stop channel has not been closed have pairwise
  different keys. When the sequence returns, these scrapers are exactly the values of the live
  map, each stored under its own key, and no key occurs twice in the map.
\<close>

theorem at_most_one_scraper_per_key:
  "at_most_one key (trace (result_group (run_ops key suppress ops (newScraperGroup name))))
   \<and> (\<forall>sg. run_ops key suppress ops (newScraperGroup name) = Inr sg \<longrightarrow>
         distinct (map fst (m_entries sg))
       \<and> set (live_after (trace sg)) = snd ` set (m_entries sg)
       \<and> (\<forall>e \<in> set (m_entries sg). key_of key (snd e) = fst e))"
proof (cases "run_ops key suppress ops (newScraperGroup name)")
  case (Inl e)
  obtain p sg' where e: "e = (p, sg')" by (cases e) auto
  have "at_most_one key (trace sg')" using run_ops_panic[OF wf_new] Inl e by blast
  then show ?thesis using Inl e by (simp add: result_group_def)
next
  case (Inr sg)
  then have "group_ok key sg" by (rule wf_reachable)
  then show ?thesis using Inr by (simp add: result_group_def group_ok_def)
qed

theorem at_most_one_scraper_per_key_witness:
  "(\<exists>sg. run_ops ScrapeURL False ops_example (newScraperGroup ''static_configs'') = Inr sg
       \<and> distinct (map fst (m_entries sg))
       \<and> set (live_after (trace sg)) = snd ` set (m_entries sg))
   \<and> at_most_one ScrapeURL
        (trace (result_group (run_ops ScrapeURL False ops_example (newScraperGroup ''static_configs''))))
   \<and> map stopCh (live_after (take 4
        (trace (result_group (run_ops ScrapeURL False ops_example (newScraperGroup ''static_configs''))))))
       = [0, 1]"
proof -
  note t = at_most_one_scraper_per_key[of ScrapeURL False ops_example "''static_configs''"]
  obtain sg where h: "run_ops ScrapeURL False ops_example (newScraperGroup ''static_configs'') = Inr sg"
    by (simp add: ops_example_def eval_defs sw_a_def sw_b_def sw_a_dup_def)
  from t[THEN conjunct2, rule_format, OF h]
  have a: "distinct (map fst (m_entries sg))"
    and b: "set (live_after (trace sg)) = snd ` set (m_entries sg)" by simp_all
  have c: "map stopCh (live_after (take 4
        (trace (result_group (run_ops ScrapeURL False ops_example (newScraperGroup ''static_configs''))))))
       = [0, 1]"
    by (simp add: ops_example_def eval_defs sw_a_def sw_b_def sw_a_dup_def result_group_def
        live_after_def apply_event_def)
  show ?thesis using h a b t[THEN conjunct1] c by blast
qed

lemma update_step_frame:
  "update_step key suppress sw (M, a, sg) = Inr (M', a', sg') \<Longrightarrow>
     changesCount sg' = changesCount sg \<and> sg_name sg' = sg_name sg"
  by (auto simp: update_step_def Let_def split: if_splits option.splits)

lemma update_loop_frame:
  assumes "update_loop key suppress sws (M, a, sg) = Inr (M', a', sg')"
  shows "changesCount sg' = changesCount sg \<and> sg_name sg' = sg_name sg"
proof -
  let ?P = "\<lambda>(pre::ScrapeWork list) (t::swsMap \<times> nat \<times> scraperGroup).
      changesCount (snd (snd t)) = changesCount sg \<and> sg_name (snd (snd t)) = sg_name sg"
  have "?P ([] @ sws) (M', a', sg')"
  proof (rule update_loop_rule[where P = ?P, OF assms])
    show "?P [] (M, a, sg)" by simp
  next
    fix pre sw t t'
    assume p: "?P pre t" and st: "update_step key suppress sw t = Inr t'"
    obtain M1 a1 sg1 where t: "t = (M1, a1, sg1)" by (cases t) auto
    obtain M2 a2 sg2 where t': "t' = (M2, a2, sg2)" by (cases t') auto
    show "?P (pre @ [sw]) t'"
      using update_step_frame[OF st[unfolded t t']] p t t' by simp
  qed
  then show ?thesis by simp
qed

lemma delete_loop_frame:
  "delete_loop M es (d, sg) = Inr (d', sg') \<Longrightarrow>
     changesCount sg' = changesCount sg \<and> sg_name sg' = sg_name sg"
proof (induction es arbitrary: d sg)
  case Nil
  then show ?case by simp
next
  case (Cons e es)
  from Cons.prems obtain d1 sg1 where st: "delete_step M e (d, sg) = Inr (d1, sg1)"
    and l: "delete_loop M es (d1, sg1) = Inr (d', sg')" by (auto split: sum.splits)
  have "changesCount sg1 = changesCount sg \<and> sg_name sg1 = sg_name sg"
    using st by (cases e) (auto simp: delete_step_def close_ch_def split: if_splits)
  then show ?case using Cons.IH[OF l] by simp
qed

lemma update_diff_frame:
  assumes "update_diff key suppress sws sg = Inr (a, d, sg')"
  shows "changesCount sg' = changesCount sg \<and> sg_name sg' = sg_name sg"
proof -
  from assms obtain M sg1 where l: "update_loop key suppress sws (Map.empty, 0, sg) = Inr (M, a, sg1)"
    and dl: "delete_loop M (m_entries sg1) (0, sg1) = Inr (d, sg')"
    by (auto simp: update_diff_def split: sum.splits)
  show ?thesis using update_loop_frame[OF l] delete_loop_frame[OF dl] by simp
qed

text \<open>
  C3. Let \<open>sg\<close> be reached from a new group by \<open>update\<close> and \<open>stop\<close> calls, let the
  key \<open>k\<close> be live in \<open>sg\<close> with scraper \<open>sc\<close> and let \<open>k\<close> be the key of an entry of
  \<open>sws\<close>. Then \<open>update sws\<close> returns, \<open>sc\<close> is still stored under \<open>k\<close>, its stop channel
  has not been closed, no goroutine has been started for the key \<open>k\<close>, and the two counts are
  the numbers of keys of \<open>sws\<close> that were not live and of live keys missing in \<open>sws\<close>, so
  \<open>k\<close> is counted in neither; the change counter grows by their sum.
\<close>

theorem live_scraper_kept:
  assumes r: "run_ops key suppress ops (newScraperGroup name) = Inr sg"
    and live: "m_get sg k = Some sc" and kin: "k \<in> key ` set sws"
  shows "\<exists>a d sg1. update_diff key suppress sws sg = Inr (a, d, sg1)
       \<and> update key suppress sws sg = Inr (report (a, d, sg1))
       \<and> m_get (report (a, d, sg1)) k = Some sc
       \<and> Close (stopCh sc) \<notin> set (trace (report (a, d, sg1)))
       \<and> (\<forall>sc' body. Go_worker sc' body \<in> set (new_events sg (report (a, d, sg1)))
             \<longrightarrow> key_of key sc' \<noteq> k)
       \<and> a = card {k' \<in> key ` set sws. m_get sg k' = None}
       \<and> d = card {k'. m_get sg k' \<noteq> None \<and> k' \<notin> key ` set sws}
       \<and> changesCount (report (a, d, sg1)) = changesCount sg + a + d"
proof -
  have w: "group_ok key sg" using r by (rule wf_reachable)
  from live obtain mp where o: "sg_m sg = Some mp" by (auto simp: m_get_def split: option.splits)
  have g: "\<And>k. m_get sg k = map_of mp k" using o by (simp add: m_get_def)
  have km: "k \<in> fst ` set mp" using live g by (metis map_of_eq_None_iff option.distinct(1))
  obtain a d sg1 mp' ev where
    ud: "update_diff key suppress sws sg = Inr (a, d, sg1)" and
    u: "update key suppress sws sg = Inr (report (a, d, sg1))" and
    w': "group_ok key sg1" and o': "sg_m sg1 = Some mp'" and
    keep: "\<forall>k \<in> fst ` set mp \<inter> key ` set sws. map_of mp' k = map_of mp k" and
    a: "a = card (key ` set sws - fst ` set mp)" and
    d: "d = card (fst ` set mp - key ` set sws)" and
    tr: "trace sg1 = trace sg @ ev" and
    go: "\<forall>sc body. Go_worker sc body \<in> set ev \<longrightarrow> key_of key sc \<notin> fst ` set mp"
    by (rule update_open[OF w o, of suppress sws])
  have g': "m_get sg1 k = Some sc" using keep km kin live g o' by (simp add: m_get_def)
  then have "(k, sc) \<in> set (m_entries sg1)" using o' by (simp add: m_get_def m_entries_def map_of_SomeD)
  then have nc: "Close (stopCh sc) \<notin> set (trace sg1)" using wf_entries(2)[OF w'] by force
  have s1: "{k' \<in> key ` set sws. m_get sg k' = None} = key ` set sws - fst ` set mp"
    unfolding g by (auto simp: map_of_eq_None_iff)
  have s2: "{k'. m_get sg k' \<noteq> None \<and> k' \<notin> key ` set sws} = fst ` set mp - key ` set sws"
    unfolding g by (auto simp: map_of_eq_None_iff simp del: not_None_eq)
  have ne: "set (new_events sg (report (a, d, sg1))) \<subseteq> set ev \<union> {Infof_summary (sg_name sg1) a d (length (m_entries sg1))}"
    using tr by (auto simp: new_events_def report_def)
  have nc': "Close (stopCh sc) \<notin> set (trace (report (a, d, sg1)))"
    using nc by (simp add: report_def)
  have go': "\<forall>sc' body. Go_worker sc' body \<in> set (new_events sg (report (a, d, sg1)))
             \<longrightarrow> key_of key sc' \<noteq> k"
    using ne go km by blast
  have cc: "changesCount sg1 = changesCount sg" using update_diff_frame[OF ud] by simp
  show ?thesis
    using ud u g' nc' go' a d cc unfolding s1 s2 by (simp del: not_None_eq)
qed

theorem live_scraper_kept_witness:
  "run_ops ScrapeURL False [Update [sw_b]] (newScraperGroup ''static_configs'') = Inr sg_b
   \<and> m_get sg_b ''http://b/metrics'' = Some sc_b
   \<and> ''http://b/metrics'' \<in> ScrapeURL ` set [sw_a, sw_b]
   \<and> (\<exists>sg'. update ScrapeURL False [sw_a, sw_b] sg_b = Inr sg'
         \<and> m_get sg' ''http://b/metrics'' = Some sc_b
         \<and> Close (stopCh sc_b) \<notin> set (trace sg'))"
proof -
  have h: "run_ops ScrapeURL False [Update [sw_b]] (newScraperGroup ''static_configs'') = Inr sg_b"
    by (simp add: eval_defs sg_b_def sc_b_def sw_b_def)
  have l: "m_get sg_b ''http://b/metrics'' = Some sc_b" by (simp add: m_get_def sg_b_def)
  have k: "''http://b/metrics'' \<in> ScrapeURL ` set [sw_a, sw_b]" by (simp add: sw_b_def)
  from live_scraper_kept[OF h l k] obtain a d sg1 where
    "update ScrapeURL False [sw_a, sw_b] sg_b = Inr (report (a, d, sg1))"
    "m_get (report (a, d, sg1)) ''http://b/metrics'' = Some sc_b"
    "Close (stopCh sc_b) \<notin> set (trace (report (a, d, sg1)))"
    by (elim exE conjE)
  with h l k show ?thesis by blast
qed

lemma later_occurrences_snoc:
  "later_occurrences key seen (pre @ [sw]) =
     later_occurrences key seen pre @ (if key sw \<in> set seen \<union> key ` set pre then [sw] else [])"
  by (induction pre arbitrary: seen) auto

lemma dropped_labels_append [simp]:
  "dropped_labels (a @ b) = dropped_labels a @ dropped_labels b"
  by (induction a rule: dropped_labels.induct) auto

lemma dropped_labels_Closes [simp]: "dropped_labels (map Close cs) = []"
  by (induction cs) auto

lemma update_loop_dropped:
  assumes l: "update_loop key suppress sws (Map.empty, 0, sg) = Inr (M', a', sg')"
    and o: "sg_m sg \<noteq> None"
    and nn: "\<forall>sw \<in> set sws. OriginalLabels sw \<noteq> None"
  shows "\<exists>ev. trace sg' = trace sg @ ev
           \<and> dropped_labels ev = map OriginalLabels (later_occurrences key [] sws)"
proof -
  let ?P = "\<lambda>(pre::ScrapeWork list) (t::swsMap \<times> nat \<times> scraperGroup).
      (\<forall>sw \<in> set pre. OriginalLabels sw \<noteq> None) \<longrightarrow>
      (sg_m (snd (snd t)) \<noteq> None \<and> dom (fst t) = key ` set pre
       \<and> (\<forall>k. fst t k \<noteq> Some None)
       \<and> (\<exists>ev. trace (snd (snd t)) = trace sg @ ev
             \<and> dropped_labels ev = map OriginalLabels (later_occurrences key [] pre)))"
  have "?P ([] @ sws) (M', a', sg')"
  proof (rule update_loop_rule[where P = ?P, OF l])
    show "?P [] (Map.empty, 0, sg)" using o by simp
  next
    fix pre sw t t'
    assume p: "?P pre t" and st: "update_step key suppress sw t = Inr t'"
    obtain M1 a1 sg1 where t: "t = (M1, a1, sg1)" by (cases t) auto
    obtain M2 a2 sg2 where t': "t' = (M2, a2, sg2)" by (cases t') auto
    show "?P (pre @ [sw]) t'"
    proof
      assume nn': "\<forall>x \<in> set (pre @ [sw]). OriginalLabels x \<noteq> None"
      then have nsw: "OriginalLabels sw \<noteq> None" by simp
      from nn' p t obtain mp1 ev where mp1: "sg_m sg1 = Some mp1"
        and dM: "dom M1 = key ` set pre" and nS: "\<And>k. M1 k \<noteq> Some None"
        and ev: "trace sg1 = trace sg @ ev"
           "dropped_labels ev = map OriginalLabels (later_occurrences key [] pre)"
        by auto
      let ?k = "key sw"
      note st' = st[unfolded t t' update_step_open[OF mp1]]
      have seen: "swsMap_get M1 ?k \<noteq> None \<longleftrightarrow> ?k \<in> key ` set pre"
      proof (cases "M1 ?k")
        case None
        then have "?k \<notin> dom M1" by (simp add: domIff)
        then show ?thesis using None dM by (simp add: swsMap_get_def)
      next
        case (Some v)
        then have "v \<noteq> None" using nS[of ?k] by auto
        moreover have "?k \<in> dom M1" using Some by (simp add: domIff)
        ultimately show ?thesis using Some dM by (simp add: swsMap_get_def)
      qed
      show "sg_m (snd (snd t')) \<noteq> None \<and> dom (fst t') = key ` set (pre @ [sw])
       \<and> (\<forall>k. fst t' k \<noteq> Some None)
       \<and> (\<exists>ev. trace (snd (snd t')) = trace sg @ ev
             \<and> dropped_labels ev = map OriginalLabels (later_occurrences key [] (pre @ [sw])))"
      proof (cases "?k \<in> key ` set pre")
        case True
        then have d: "swsMap_get M1 ?k \<noteq> None" using seen by simp
        define ev1 where "ev1 = (if \<not> suppress then [Errorf_duplicate sw (swsMap_get M1 ?k) (OriginalLabels sw)] else [])
                  @ [DroppedRegister (OriginalLabels sw)]"
        from d st' have e: "M2 = M1" "sg_m sg2 = sg_m sg1" "trace sg2 = trace sg1 @ ev1"
          by (auto simp: ev1_def simp del: not_None_eq)
        have dl: "dropped_labels ev1 = [OriginalLabels sw]" by (simp add: ev1_def)
        have lo: "later_occurrences key [] (pre @ [sw]) = later_occurrences key [] pre @ [sw]"
          using True by (simp add: later_occurrences_snoc)
        have "trace sg2 = trace sg @ (ev @ ev1)" using e(3) ev(1) by simp
        moreover have "dropped_labels (ev @ ev1) = map OriginalLabels (later_occurrences key [] (pre @ [sw]))"
          using ev(2) dl lo by simp
        ultimately have "\<exists>ev. trace sg2 = trace sg @ ev
             \<and> dropped_labels ev = map OriginalLabels (later_occurrences key [] (pre @ [sw]))"
          by blast
        moreover have "key ` set (pre @ [sw]) = key ` set pre" using True by auto
        ultimately show ?thesis unfolding t' using e mp1 dM nS by simp
      next
        case False
        then have d: "swsMap_get M1 ?k = None" using seen by simp
        let ?sc = "newScraper sw (sg_name sg1) (nextCh sg1)"
        define ev1 where "ev1 = (if ?k \<in> fst ` set mp1 then []
                                  else [Go_worker ?sc (worker_body ?sc sw), TsmRegister sw])"
        from d st' mp1 have e: "M2 = M1(?k \<mapsto> OriginalLabels sw)" "sg_m sg2 \<noteq> None"
          "trace sg2 = trace sg1 @ ev1"
          by (auto simp: ev1_def split: if_splits simp del: not_None_eq)
        have dl: "dropped_labels ev1 = []" by (simp add: ev1_def)
        have lo: "later_occurrences key [] (pre @ [sw]) = later_occurrences key [] pre"
          using False by (simp add: later_occurrences_snoc)
        have "trace sg2 = trace sg @ (ev @ ev1)" using e(3) ev(1) by simp
        moreover have "dropped_labels (ev @ ev1) = map OriginalLabels (later_occurrences key [] (pre @ [sw]))"
          using ev(2) dl lo by simp
        ultimately have x: "\<exists>ev. trace sg2 = trace sg @ ev
             \<and> dropped_labels ev = map OriginalLabels (later_occurrences key [] (pre @ [sw]))"
          by blast
        have d2: "dom M2 = key ` set (pre @ [sw])" using e(1) dM by auto
        have n2: "\<forall>k. M2 k \<noteq> Some None" using e(1) nS nsw by auto
        show ?thesis unfolding t' using e(2) d2 n2 x by simp
      qed
    qed
  qed
  then show ?thesis using nn by simp
qed

text \<open>
  When no entry has nil original labels, a reconcile registers in the duplicate registry the
  original labels of exactly the entries whose key is the key of an earlier entry, in order.
\<close>

lemma duplicates_registered:
  assumes r: "run_ops key suppress ops (newScraperGroup name) = Inr sg"
    and o: "sg_m sg \<noteq> None"
    and nn: "\<forall>sw \<in> set sws. OriginalLabels sw \<noteq> None"
  shows "\<exists>sg'. update key suppress sws sg = Inr sg'
          \<and> dropped_labels (new_events sg sg') = map OriginalLabels (later_occurrences key [] sws)"
proof -
  have w: "group_ok key sg" using r by (rule wf_reachable)
  obtain M a sg1 where l: "update_loop key suppress sws (Map.empty, 0, sg) = Inr (M, a, sg1)"
    using update_loop_returns[where sg = sg and key = key and suppress = suppress and sws = sws
        and M = Map.empty and a = 0] o by auto
  from wf_update_loop[OF l w o] obtain mp1 where w1: "group_ok key sg1" and mp1: "sg_m sg1 = Some mp1"
    by auto
  have me1: "m_entries sg1 = mp1" using mp1 by (simp add: m_entries_def)
  from update_loop_dropped[OF l o nn] obtain ev where
    ev: "trace sg1 = trace sg @ ev"
      "dropped_labels ev = map OriginalLabels (later_occurrences key [] sws)" by blast
  let ?cs = "map (\<lambda>e. stopCh (snd e)) (dead M mp1)"
  let ?sg2 = "sg1\<lparr>sg_m := Some (filter (\<lambda>e. M (fst e) \<noteq> None) mp1),
                  trace := trace sg1 @ map Close ?cs\<rparr>"
  note dl = delete_loop_wf(1)[OF w1 mp1, where M = M and d = 0]
  have u: "update key suppress sws sg = Inr (report (a, length (dead M mp1), ?sg2))"
    by (simp add: update_def update_diff_def l me1 dl del: not_None_eq)
  have "dropped_labels (new_events sg (report (a, length (dead M mp1), ?sg2))) = dropped_labels ev"
    using ev(1) by (simp add: new_events_def report_def del: not_None_eq map_map)
  with u ev(2) show ?thesis by (simp del: not_None_eq)
qed

text \<open>The flag only adds log lines.\<close>

lemma mem_strip [simp]: "Close c \<in> set (filter (\<lambda>e. \<not> is_duplicate_log e) tr) \<longleftrightarrow> Close c \<in> set tr"
  by simp

lemma strip_fields [simp]:
  "sg_m (strip_log sg) = sg_m sg" "nextCh (strip_log sg) = nextCh sg"
  "sg_name (strip_log sg) = sg_name sg" "changesCount (strip_log sg) = changesCount sg"
  "m_get (strip_log sg) k = m_get sg k" "m_entries (strip_log sg) = m_entries sg"
  "trace (strip_log sg) = filter (\<lambda>e. \<not> is_duplicate_log e) (trace sg)"
  by (simp_all add: strip_log_def m_get_def m_entries_def)

lemma strip_update_step:
  "map_sum (apsnd strip_log) (\<lambda>(M', a', sg'). (M', a', strip_log sg')) (update_step key suppress sw (M, a, sg))
     = update_step key True sw (M, a, strip_log sg)"
  by (auto simp: update_step_def Let_def strip_log_def m_get_def split: option.splits)

lemma strip_update_loop:
  "map_sum (apsnd strip_log) (\<lambda>(M', a', sg'). (M', a', strip_log sg')) (update_loop key suppress sws (M, a, sg))
     = update_loop key True sws (M, a, strip_log sg)"
proof (induction sws arbitrary: M a sg)
  case Nil
  then show ?case by simp
next
  case (Cons sw sws)
  show ?case
  proof (cases "update_step key suppress sw (M, a, sg)")
    case (Inl e)
    obtain p sg' where e: "e = (p, sg')" by (cases e) auto
    have "update_step key True sw (M, a, strip_log sg) = Inl (p, strip_log sg')"
      using strip_update_step[of key suppress sw M a sg] Inl e by simp
    then show ?thesis using Inl e by simp
  next
    case (Inr t)
    obtain M1 a1 sg1 where t: "t = (M1, a1, sg1)" by (cases t) auto
    have "update_step key True sw (M, a, strip_log sg) = Inr (M1, a1, strip_log sg1)"
      using strip_update_step[of key suppress sw M a sg] Inr t by simp
    then show ?thesis using Inr t Cons.IH[of M1 a1 sg1] by simp
  qed
qed

lemma strip_delete_step:
  "map_sum (apsnd strip_log) (apsnd strip_log) (delete_step M e (d, sg)) = delete_step M e (d, strip_log sg)"
  by (cases e) (auto simp: delete_step_def close_ch_def strip_log_def)

lemma strip_delete_loop:
  "map_sum (apsnd strip_log) (apsnd strip_log) (delete_loop M es (d, sg)) = delete_loop M es (d, strip_log sg)"
proof (induction es arbitrary: d sg)
  case Nil
  then show ?case by simp
next
  case (Cons e es)
  show ?case
  proof (cases "delete_step M e (d, sg)")
    case (Inl x)
    obtain p sg' where x: "x = (p, sg')" by (cases x) auto
    have "delete_step M e (d, strip_log sg) = Inl (p, strip_log sg')"
      using strip_delete_step[of M e d sg] Inl x by simp
    then show ?thesis using Inl x by simp
  next
    case (Inr t)
    obtain d1 sg1 where t: "t = (d1, sg1)" by (cases t) auto
    have "delete_step M e (d, strip_log sg) = Inr (d1, strip_log sg1)"
      using strip_delete_step[of M e d sg] Inr t by simp
    then show ?thesis using Inr t Cons.IH[of d1 sg1] by simp
  qed
qed

lemma strip_report: "strip_log (report (a, d, sg)) = report (a, d, strip_log sg)"
  by (simp add: report_def strip_log_def m_entries_def)

lemma strip_update:
  "strip_result (update key suppress sws sg) = update key True sws (strip_log sg)"
proof (cases "update_loop key suppress sws (Map.empty, 0, sg)")
  case (Inl e)
  obtain p sg' where e: "e = (p, sg')" by (cases e) auto
  have "update_loop key True sws (Map.empty, 0, strip_log sg) = Inl (p, strip_log sg')"
    using strip_update_loop[of key suppress sws Map.empty 0 sg] Inl e by simp
  then show ?thesis using Inl e by (simp add: update_def update_diff_def strip_result_def)
next
  case (Inr t)
  obtain M a sg1 where t: "t = (M, a, sg1)" by (cases t) auto
  have l: "update_loop key True sws (Map.empty, 0, strip_log sg) = Inr (M, a, strip_log sg1)"
    using strip_update_loop[of key suppress sws Map.empty 0 sg] Inr t by simp
  show ?thesis
  proof (cases "delete_loop M (m_entries sg1) (0, sg1)")
    case (Inl e)
    obtain p sg' where e: "e = (p, sg')" by (cases e) auto
    have "delete_loop M (m_entries sg1) (0, strip_log sg1) = Inl (p, strip_log sg')"
      using strip_delete_loop[of M "m_entries sg1" 0 sg1] Inl e by simp
    then show ?thesis using Inr t l Inl e
      by (simp add: update_def update_diff_def strip_result_def)
  next
    case (Inr u)
    obtain d sg2 where u: "u = (d, sg2)" by (cases u) auto
    have "delete_loop M (m_entries sg1) (0, strip_log sg1) = Inr (d, strip_log sg2)"
      using strip_delete_loop[of M "m_entries sg1" 0 sg1] Inr u by simp
    then show ?thesis using \<open>update_loop key suppress sws (Map.empty, 0, sg) = Inr t\<close> t l Inr u
      by (simp add: update_def update_diff_def strip_result_def strip_report)
  qed
qed

lemma flag_only_logs:
  "strip_result (update key False sws sg) = strip_result (update key True sws sg)"
  by (simp only: strip_update)

text \<open>
  C4. The first loop tells a seen key by \<open>swsMap[key] != nil\<close>, which is false for a key
  whose first entry has nil original labels. With a first entry whose \<open>OriginalLabels\<close> is nil
  and a second entry with the same key, \<open>update\<close> starts one scraper and counts one addition,
  but the second entry is neither registered in the duplicate registry nor logged, whatever
  the flag.
\<close>

theorem duplicate_after_nil_labels:
  "update ScrapeURL suppress [sw_a_nil, sw_a_dup] (newScraperGroup ''static_configs'') =
     Inr \<lparr>sg_name = ''static_configs'',
          sg_m = Some [(''http://a/metrics'',
                        \<lparr>sw_Config = sw_a_nil, sw_ScrapeGroup = ''static_configs'', stopCh = 0\<rparr>)],
          changesCount = 1, nextCh = 1,
          trace = [Go_worker \<lparr>sw_Config = sw_a_nil, sw_ScrapeGroup = ''static_configs'', stopCh = 0\<rparr>
                     [Run_sw 0, TsmUnregister sw_a_nil, WgDone],
                   TsmRegister sw_a_nil,
                   Infof_summary ''static_configs'' 1 0 1]\<rparr>"
  by (simp add: eval_defs sw_a_nil_def sw_a_dup_def)

text \<open>
  C6, a counterexample to the no-op: after \<open>stop\<close>, \<open>update\<close> with one target starts a goroutine,
  registers the target and panics on the write to the nil map.
\<close>

theorem update_after_stop_counterexample:
  "stop (newScraperGroup ''static_configs'') = Inr sg_stopped
   \<and> update ScrapeURL False [sw_a] sg_stopped =
       Inl (AssignNilMap,
            sg_stopped\<lparr>nextCh := 1,
              trace := [WgWait,
                        Go_worker \<lparr>sw_Config = sw_a, sw_ScrapeGroup = ''static_configs'', stopCh = 0\<rparr>
                          [Run_sw 0, TsmUnregister sw_a, WgDone],
                        TsmRegister sw_a]\<rparr>)
   \<and> update ScrapeURL False [sw_a] sg_stopped \<noteq> Inr sg_stopped"
  by (simp add: eval_defs sg_stopped_def)

text \<open>
  C6, amended. On a group on which \<open>stop\<close> has returned, \<open>update\<close> of the empty list
  returns and changes nothing; \<open>update\<close> of a non-empty list starts a goroutine for the
  first entry, registers it and panics on the assignment to the nil map.
\<close>

theorem update_after_stop:
  assumes "stop sg0 = Inr sg"
  shows "update key suppress [] sg = Inr sg
       \<and> update key suppress (sw # sws) sg =
           Inl (AssignNilMap,
                sg\<lparr>nextCh := Suc (nextCh sg),
                   trace := trace sg @ [Go_worker (newScraper sw (sg_name sg) (nextCh sg))
                                          [Run_sw (nextCh sg), TsmUnregister sw, WgDone],
                                        TsmRegister sw]\<rparr>)"
proof -
  have "sg_m sg = None" using assms by (auto simp: stop_def split: sum.splits)
  then show ?thesis
    by (simp add: update_closed_Nil update_closed_Cons worker_body_def newScraper_def)
qed

theorem update_after_stop_witness:
  "stop (newScraperGroup ''static_configs'') = Inr sg_stopped
   \<and> update ScrapeURL True [] sg_stopped = Inr sg_stopped
   \<and> (\<exists>sg'. update ScrapeURL True [sw_a, sw_b] sg_stopped = Inl (AssignNilMap, sg'))"
proof -
  have h: "stop (newScraperGroup ''static_configs'') = Inr sg_stopped"
    by (simp add: eval_defs sg_stopped_def)
  from update_after_stop[OF h, of ScrapeURL True sw_a "[sw_b]"] h show ?thesis by blast
qed

text \<open>
  C9, a counterexample to the order: in the first reconcile of one target the goroutine is started first
  and the target is registered after it.
\<close>

theorem register_before_start_counterexample:
  "update ScrapeURL False [sw_b] (newScraperGroup ''static_configs'') = Inr sg_b
   \<and> new_events (newScraperGroup ''static_configs'') sg_b =
       [Go_worker sc_b [Run_sw 0, TsmUnregister sw_b, WgDone], TsmRegister sw_b,
        Infof_summary ''static_configs'' 1 0 1]
   \<and> \<not> registered_before_go [] (new_events (newScraperGroup ''static_configs'') sg_b)"
  by (simp add: eval_defs sg_b_def sc_b_def sw_b_def new_events_def)

text \<open>
  C9, amended. In every reconcile of a group reached from a new group, each \<open>go\<close> statement
  is followed at once by the \<open>Register\<close> call for the scraper's \<open>ScrapeWork\<close>, and \<open>Register\<close>
  is called nowhere else; the goroutine runs the worker, then calls \<open>Unregister\<close> for the same
  \<open>ScrapeWork\<close>, then \<open>wg.Done\<close>.
\<close>

theorem spawn_then_register:
  assumes r: "run_ops key suppress ops (newScraperGroup name) = Inr sg"
  shows "spawn_register_ok (new_events sg (result_group (update key suppress sws sg)))"
proof (cases "sg_m sg")
  case None
  show ?thesis
  proof (cases sws)
    case Nil
    then show ?thesis using None by (simp add: update_closed_Nil result_group_def new_events_def)
  next
    case (Cons sw sws')
    then show ?thesis using None
      by (simp add: update_closed_Cons result_group_def new_events_def worker_body_def newScraper_def)
  qed
next
  case (Some mp)
  have w: "group_ok key sg" using r by (rule wf_reachable)
  obtain a d sg1 mp' ev where
    u: "update key suppress sws sg = Inr (report (a, d, sg1))" and
    tr: "trace sg1 = trace sg @ ev" and ok: "spawn_register_ok ev"
    by (rule update_open[OF w Some, of suppress sws])
  have "new_events sg (report (a, d, sg1)) = ev
      \<or> new_events sg (report (a, d, sg1)) = ev @ [Infof_summary (sg_name sg1) a d (length (m_entries sg1))]"
    using tr by (auto simp: new_events_def report_def)
  moreover have "spawn_register_ok (ev @ [Infof_summary (sg_name sg1) a d (length (m_entries sg1))])"
    using ok by (rule spawn_register_ok_append) simp
  ultimately show ?thesis using u ok by (auto simp: result_group_def)
qed

theorem spawn_then_register_witness:
  "run_ops ScrapeURL False [Update [sw_b]] (newScraperGroup ''static_configs'') = Inr sg_b
   \<and> spawn_register_ok (new_events sg_b (result_group (update ScrapeURL False [sw_a, sw_a_dup] sg_b)))
   \<and> length (new_events sg_b (result_group (update ScrapeURL False [sw_a, sw_a_dup] sg_b))) = 6"
proof -
  have h: "run_ops ScrapeURL False [Update [sw_b]] (newScraperGroup ''static_configs'') = Inr sg_b"
    by (simp add: eval_defs sg_b_def sc_b_def sw_b_def)
  have l: "length (new_events sg_b (result_group (update ScrapeURL False [sw_a, sw_a_dup] sg_b))) = 6"
    by (simp add: eval_defs sg_b_def sc_b_def sw_b_def sw_a_def sw_a_dup_def new_events_def result_group_def)
  from spawn_then_register[OF h, of "[sw_a, sw_a_dup]"] h l show ?thesis by blast
qed

section \<open>Properties of the runner\<close>

lemma add_int32_id: "- (2 ^ 31) \<le> x + d \<Longrightarrow> x + d < 2 ^ 31 \<Longrightarrow> add_int32 x d = x + d"
  by (simp add: add_int32_def)

lemma length_filter_update:
  assumes "j < length xs"
  shows "length (filter P (xs[j := y])) + (if P (xs ! j) then 1 else 0)
           = length (filter P xs) + (if P y then 1 else 0)"
proof -
  have a: "xs[j := y] = take j xs @ y # drop (Suc j) xs" using assms by (rule upd_conv_take_nth_drop)
  have b: "xs = take j xs @ xs ! j # drop (Suc j) xs" using assms by (rule id_take_nth_drop)
  have "length (filter P xs) = length (filter P (take j xs @ xs ! j # drop (Suc j) xs))"
    using b by simp
  then show ?thesis unfolding a by simp
qed

lemma scfg_step_pending:
  assumes "scfg_step key suppress closed c dec c'"
  shows "(dec \<longrightarrow> pending c \<and> \<not> pending c') \<and> (\<not> dec \<longrightarrow> pending c' = pending c)
         \<and> \<not> (scfg_pc c = AwaitInitial \<and> queue (cfgCh c) = [])"
  using assms by cases (auto simp: pending_def chan_recv_def)

lemma run_inv_start:
  "runScraper_start fl path loaded 0 = Running s0 \<Longrightarrow> run_inv s0"
  by (auto simp: runScraper_start_def run_inv_def categories_def split: if_splits load.splits)

lemma run_inv_step:
  assumes "step key suppress s s'" and inv: "run_inv s"
  shows "run_inv s'"
  using assms(1)
proof cases
  case (add name iv rest)
  from inv add(2) have n: "PendingScrapeConfigs s = int (length (filter pending (scfgs s)))"
    and l: "length (scfgs s) + length ((name, iv) # rest) \<le> 10"
    and aw: "\<forall>c \<in> set (scfgs s). scfg_pc c = AwaitInitial \<and> queue (cfgCh c) = []"
    by (simp_all add: run_inv_def)
  have "length (filter pending (scfgs s)) \<le> 10"
    using l length_filter_le[of pending "scfgs s"] by linarith
  then have r: "PendingScrapeConfigs s + 1 < 2 ^ 31" "- (2 ^ 31) \<le> PendingScrapeConfigs s + 1"
    using n by simp_all
  have p: "pending (new_scrapeConfig name iv)" by (simp add: pending_def new_scrapeConfig_def)
  show ?thesis unfolding add(1) run_inv_def
    using n l aw p add_int32_id[OF r(2) r(1)]
    by (simp add: new_scrapeConfig_def make_chan_def)
next
  case adds_done
  with inv show ?thesis by (simp add: run_inv_def)
next
  case (send j ch)
  have "pending ((scfgs s ! j)\<lparr>cfgCh := ch\<rparr>) = pending (scfgs s ! j)" by (simp add: pending_def)
  then have "length (filter pending ((scfgs s)[j := (scfgs s ! j)\<lparr>cfgCh := ch\<rparr>]))
           = length (filter pending (scfgs s))"
    using length_filter_update[OF send(3), of pending "(scfgs s ! j)\<lparr>cfgCh := ch\<rparr>"] by simp
  with inv send(2) show ?thesis unfolding send(1) by (simp add: run_inv_def)
next
  case (sent_all j)
  with inv show ?thesis by (simp add: run_inv_def)
next
  case (event ev)
  then have "scfgs s' = scfgs s \<and> PendingScrapeConfigs s' = PendingScrapeConfigs s
             \<and> r_pc s = Waiting \<and> (\<forall>rest. r_pc s' \<noteq> Adding rest)"
    by (auto simp: on_event_def split: if_splits runner_event.splits load.splits)
  with inv show ?thesis by (auto simp: run_inv_def split: runner_pc.splits)
next
  case stopped
  then have "filter pending (scfgs s) = []" by (auto simp: filter_empty_conv pending_def)
  with inv show ?thesis unfolding stopped(1) by (simp add: run_inv_def)
next
  case (scfg_other j c')
  note sp = scfg_step_pending[OF scfg_other(3)]
  from sp inv scfg_other(2) have na: "\<forall>rest. r_pc s \<noteq> Adding rest"
    by (auto simp: run_inv_def)
  have "length (filter pending ((scfgs s)[j := c'])) = length (filter pending (scfgs s))"
    using length_filter_update[OF scfg_other(2), of pending c'] sp by simp
  with inv na show ?thesis unfolding scfg_other(1) by (auto simp: run_inv_def split: runner_pc.splits)
next
  case (scfg_decrement j c')
  note sp = scfg_step_pending[OF scfg_decrement(3)]
  from sp inv scfg_decrement(2) have na: "\<forall>rest. r_pc s \<noteq> Adding rest"
    by (auto simp: run_inv_def)
  from inv have n: "PendingScrapeConfigs s = int (length (filter pending (scfgs s)))"
    and l: "length (scfgs s) \<le> 10" by (auto simp: run_inv_def)
  have e: "length (filter pending ((scfgs s)[j := c'])) + 1 = length (filter pending (scfgs s))"
    using length_filter_update[OF scfg_decrement(2), of pending c'] sp by simp
  have "length (filter pending (scfgs s)) \<le> 10"
    using l length_filter_le[of pending "scfgs s"] by linarith
  then have r: "PendingScrapeConfigs s + (- 1) < 2 ^ 31" "- (2 ^ 31) \<le> PendingScrapeConfigs s + (- 1)"
    using n by simp_all
  have "add_int32 (PendingScrapeConfigs s) (- 1) = int (length (filter pending ((scfgs s)[j := c'])))"
    using add_int32_id[OF r(2) r(1)] n e by simp
  with inv na show ?thesis unfolding scfg_decrement(1)
    by (auto simp: run_inv_def split: runner_pc.splits)
qed

lemma run_inv_steps:
  "(step key suppress)\<^sup>*\<^sup>* s s' \<Longrightarrow> run_inv s \<Longrightarrow> run_inv s'"
  by (induction rule: rtranclp_induct) (auto intro: run_inv_step)

lemma updateConfig_room:
  "\<forall>c \<in> set cs. has_room c \<Longrightarrow> updateConfig cfg cs = Done (map (deliver cfg) cs)"
  by (induction cs) (auto simp: chan_send_def deliver_def has_room_def)

lemma updateConfig_full:
  "\<forall>c \<in> set pre. has_room c \<Longrightarrow> \<not> has_room c \<Longrightarrow>
     updateConfig cfg (pre @ c # rest) = Blocked (map (deliver cfg) pre @ c # rest)"
proof (induction pre)
  case Nil
  then show ?case by (simp add: chan_send_def has_room_def)
next
  case (Cons a pre)
  then have "has_room a" and ih: "updateConfig cfg (pre @ c # rest) = Blocked (map (deliver cfg) pre @ c # rest)"
    by simp_all
  then show ?case by (simp add: chan_send_def has_room_def deliver_def)
qed

text \<open>
  When \<open>updateConfig\<close> gets through the list, the run gets from the fan-out to the
  \<open>select\<close> by one send after the other.
\<close>

lemma fanout_steps:
  assumes "updateConfig (r_cfg s) rest = Done rest'"
  shows "(step key suppress)\<^sup>*\<^sup>* (s\<lparr>scfgs := pre @ rest, r_pc := FanOut (length pre)\<rparr>)
           (s\<lparr>scfgs := pre @ rest', r_pc := Waiting\<rparr>)"
  using assms
proof (induction rest arbitrary: pre rest')
  case Nil
  let ?s = "s\<lparr>scfgs := pre @ [], r_pc := FanOut (length pre)\<rparr>"
  have "step key suppress ?s (?s\<lparr>r_pc := Waiting\<rparr>)"
    by (rule step.sent_all[of _ "length pre"]) simp_all
  then show ?case using Nil by simp
next
  case (Cons c rest)
  from Cons.prems obtain ch r1 where ch: "chan_send (r_cfg s) (cfgCh c) = Some ch"
    and r1: "updateConfig (r_cfg s) rest = Done r1" and rest': "rest' = c\<lparr>cfgCh := ch\<rparr> # r1"
    by (auto split: option.splits progress.splits)
  let ?s = "s\<lparr>scfgs := pre @ c # rest, r_pc := FanOut (length pre)\<rparr>"
  have "step key suppress ?s
          (?s\<lparr>scfgs := (scfgs ?s)[length pre := (scfgs ?s ! length pre)\<lparr>cfgCh := ch\<rparr>],
              r_pc := FanOut (Suc (length pre))\<rparr>)"
    by (rule step.send) (simp_all add: ch)
  then have a: "step key suppress ?s
          (s\<lparr>scfgs := (pre @ [c\<lparr>cfgCh := ch\<rparr>]) @ rest, r_pc := FanOut (length (pre @ [c\<lparr>cfgCh := ch\<rparr>]))\<rparr>)"
    by simp
  have b: "(step key suppress)\<^sup>*\<^sup>*
          (s\<lparr>scfgs := (pre @ [c\<lparr>cfgCh := ch\<rparr>]) @ rest, r_pc := FanOut (length (pre @ [c\<lparr>cfgCh := ch\<rparr>]))\<rparr>)
          (s\<lparr>scfgs := (pre @ [c\<lparr>cfgCh := ch\<rparr>]) @ r1, r_pc := Waiting\<rparr>)"
    by (rule Cons.IH[OF r1])
  show ?case using converse_rtranclp_into_rtranclp[of "step key suppress", OF a b] rest' by simp
qed

text \<open>
  C5, a counterexample to the overwrite: with a config still queued for \<open>file_sd_configs\<close>, \<open>updateConfig\<close>
  delivers to \<open>static_configs\<close> and then waits at the channel of \<open>file_sd_configs\<close>, whose
  queue still holds the older config.
\<close>

theorem updateConfig_supersedes_counterexample:
  "updateConfig 2 [idle_scfg, busy_scfg] = Blocked [deliver 2 idle_scfg, busy_scfg]
   \<and> queue (cfgCh busy_scfg) = [1]"
  by (simp add: idle_scfg_def busy_scfg_def chan_send_def deliver_def)

text \<open>
  C5, amended. \<open>updateConfig\<close> sends on every channel in turn. When every buffer has room,
  all sends complete and each queue gets the config appended, without waiting for a receiver.
  At the first \<open>scrapeConfig\<close> whose buffer is full the runner waits; the queued config is
  kept as it is and the \<open>scrapeConfig\<close>s after it have received nothing yet.
\<close>

theorem updateConfig_blocking_send:
  "((\<forall>c \<in> set cs. has_room c) \<longrightarrow> updateConfig cfg cs = Done (map (deliver cfg) cs))
   \<and> ((\<forall>c \<in> set pre. has_room c) \<and> \<not> has_room c \<longrightarrow>
        updateConfig cfg (pre @ c # rest) = Blocked (map (deliver cfg) pre @ c # rest))"
proof (intro conjI impI)
  assume "\<forall>c \<in> set cs. has_room c"
  then show "updateConfig cfg cs = Done (map (deliver cfg) cs)" by (rule updateConfig_room)
next
  assume h: "(\<forall>c \<in> set pre. has_room c) \<and> \<not> has_room c"
  show "updateConfig cfg (pre @ c # rest) = Blocked (map (deliver cfg) pre @ c # rest)"
    by (rule updateConfig_full[OF conjunct1[OF h] conjunct2[OF h]])
qed

theorem updateConfig_blocking_send_witness:
  "has_room idle_scfg \<and> \<not> has_room busy_scfg
   \<and> updateConfig 2 [idle_scfg, idle_scfg] = Done [deliver 2 idle_scfg, deliver 2 idle_scfg]
   \<and> updateConfig 2 ([idle_scfg] @ busy_scfg # [idle_scfg])
        = Blocked ([deliver 2 idle_scfg] @ busy_scfg # [idle_scfg])"
proof -
  have i: "has_room idle_scfg" by (simp add: has_room_def idle_scfg_def)
  have a: "\<forall>c \<in> set [idle_scfg, idle_scfg]. has_room c" using i by simp
  have b: "\<forall>c \<in> set [idle_scfg]. has_room c" using i by simp
  have c: "\<not> has_room busy_scfg" by (simp add: has_room_def busy_scfg_def)
  note t1 = updateConfig_blocking_send[of "[idle_scfg, idle_scfg]" 2 "[]" busy_scfg "[]",
      THEN conjunct1, THEN mp, OF a]
  note t2 = updateConfig_blocking_send[of "[]" 2 "[idle_scfg]" busy_scfg "[idle_scfg]",
      THEN conjunct2, THEN mp, OF conjI[OF b c]]
  show ?thesis using i c t1 t2 by simp
qed

text \<open>
  C7. At the \<open>select\<close>, a SIGHUP or a tick whose \<open>loadConfig\<close> succeeds with bytes equal to
  the stored ones leaves the runner at the \<open>select\<close> (no \<open>updateConfig\<close>), and the reload
  counter, the stored config and bytes, the pending counter and every \<open>scrapeConfig\<close> (its
  channel, its group with change counter and live map) are what they were; only the log grows
  on SIGHUP.
\<close>

theorem unchanged_reload_is_noop:
  assumes "r_pc s = Waiting"
  shows "on_event (Sighup (Loaded cfgNew (r_data s))) s
           = Some (s\<lparr>r_log := r_log s @ [SighupReceived (configFile s), NothingChanged (configFile s)]\<rparr>)
       \<and> (tickerOn s \<longrightarrow> on_event (Tick (Loaded cfgNew (r_data s))) s = Some s)
       \<and> (\<forall>ev s'. (ev = Sighup (Loaded cfgNew (r_data s)) \<or> ev = Tick (Loaded cfgNew (r_data s)))
             \<and> on_event ev s = Some s' \<longrightarrow>
               r_pc s' = Waiting \<and> configReloads s' = configReloads s
             \<and> r_cfg s' = r_cfg s \<and> r_data s' = r_data s \<and> scfgs s' = scfgs s
             \<and> PendingScrapeConfigs s' = PendingScrapeConfigs s)"
  using assms by (auto simp: on_event_def split: if_splits)

theorem unchanged_reload_is_noop_witness:
  "r_pc example_waiting = Waiting \<and> tickerOn example_waiting
   \<and> on_event (Sighup (Loaded 7 ''scrape_configs: []'')) example_waiting
       = Some (example_waiting\<lparr>r_log := [Reading ''prometheus.yml'', SighupReceived ''prometheus.yml'',
                                          NothingChanged ''prometheus.yml'']\<rparr>)
   \<and> on_event (Tick (Loaded 7 ''scrape_configs: []'')) example_waiting = Some example_waiting"
proof -
  have h: "r_pc example_waiting = Waiting" by (simp add: example_waiting_def)
  have t: "tickerOn example_waiting" by (simp add: example_waiting_def)
  have d: "r_data example_waiting = ''scrape_configs: []''" "configFile example_waiting = ''prometheus.yml''"
    "r_log example_waiting = [Reading ''prometheus.yml'']"
    by (simp_all add: example_waiting_def)
  from unchanged_reload_is_noop[OF h, of 7] h t show ?thesis unfolding d by simp
qed

text \<open>
  C10. With an empty \<open>-promscrape.config\<close>, \<open>CheckConfig\<close> returns the error
  \<open>missing -promscrape.config option\<close>, while \<open>runScraper\<close> started by \<open>Init\<close> returns at once
  without any effect, so that \<open>Stop\<close> returns.
\<close>

theorem empty_config_path:
  assumes "promscrapeConfigFile fl = []"
  shows "CheckConfig fl loadConfig = Some ''missing -promscrape.config option''
       \<and> Init fl loaded pending0 = ReturnedAtOnce
       \<and> Stop_returns (Init fl loaded pending0)"
  using assms by (simp add: CheckConfig_def Init_def runScraper_start_def Stop_returns_def)

theorem empty_config_path_witness:
  "promscrapeConfigFile (example_flags\<lparr>promscrapeConfigFile := []\<rparr>) = []
   \<and> CheckConfig (example_flags\<lparr>promscrapeConfigFile := []\<rparr>) (\<lambda>p. Loaded (1::nat) ''scrape_configs: []'')
        = Some ''missing -promscrape.config option''
   \<and> Init (example_flags\<lparr>promscrapeConfigFile := []\<rparr>) (Loaded (1::nat) ''scrape_configs: []'') 0
        = ReturnedAtOnce"
proof -
  have h: "promscrapeConfigFile (example_flags\<lparr>promscrapeConfigFile := []\<rparr>) = []" by simp
  from empty_config_path[OF h, of "\<lambda>p. Loaded (1::nat) ''scrape_configs: []''" "Loaded (1::nat) ''scrape_configs: []''" 0] h
  show ?thesis by simp
qed

lemma sched_scfg_step:
  "sched_scfg key suppress c = Some (dec, c') \<Longrightarrow> scfg_step key suppress closed c dec c'"
  by (auto simp: sched_scfg_def split: scfg_pc.splits option.splits sum.splits
      intro: scfg_step.intros)

lemma sched_first_step:
  "sched_first key suppress j cs = Some (i, dec, c') \<Longrightarrow>
     j \<le> i \<and> i - j < length cs \<and> scfg_step key suppress closed (cs ! (i - j)) dec c'"
proof (induction cs arbitrary: j)
  case Nil
  then show ?case by simp
next
  case (Cons c cs)
  show ?case
  proof (cases "sched_scfg key suppress c")
    case None
    with Cons.prems have "sched_first key suppress (Suc j) cs = Some (i, dec, c')" by simp
    from Cons.IH[OF this] have a: "Suc j \<le> i" "i - Suc j < length cs"
      "scfg_step key suppress closed (cs ! (i - Suc j)) dec c'" by simp_all
    then have "(c # cs) ! (i - j) = cs ! (i - Suc j)" by (simp add: nth_Cons')
    with a show ?thesis by auto
  next
    case (Some r)
    with Cons.prems have "r = (dec, c')" "i = j" by (auto split: prod.splits)
    with Some show ?thesis by (simp add: sched_scfg_step)
  qed
qed

lemma sched_step: "sched key suppress s = Some s' \<Longrightarrow> step key suppress s s'"
proof -
  assume a: "sched key suppress s = Some s'"
  have scfg: "step key suppress s s'"
    if f: "sched_first key suppress 0 (scfgs s) = Some (j, dec, c')"
      and s': "s' = (if dec then
                       s\<lparr>scfgs := (scfgs s)[j := c'],
                         PendingScrapeConfigs := add_int32 (PendingScrapeConfigs s) (- 1)\<rparr>
                     else s\<lparr>scfgs := (scfgs s)[j := c']\<rparr>)" for j dec c'
  proof -
    from sched_first_step[OF f, of "scs_stopCh_closed s"]
    have j: "j < length (scfgs s)"
      and st: "scfg_step key suppress (scs_stopCh_closed s) (scfgs s ! j) dec c'" by simp_all
    show ?thesis
    proof (cases dec)
      case True
      then show ?thesis using step.scfg_decrement[OF j] st s' by simp
    next
      case False
      then show ?thesis using step.scfg_other[OF j] st s' by simp
    qed
  qed
  show ?thesis
  proof (cases "r_pc s")
    case (Adding cats)
    show ?thesis
    proof (cases cats)
      case Nil
      with Adding a show ?thesis by (auto simp: sched_def intro: step.adds_done)
    next
      case (Cons x rest)
      obtain name iv where "x = (name, iv)" by (cases x) auto
      with Cons Adding a show ?thesis by (auto simp: sched_def intro: step.add)
    qed
  next
    case (FanOut j)
    with a show ?thesis
      by (auto simp: sched_def split: if_splits option.splits intro: step.send step.sent_all)
  next
    case Waiting
    with a scfg show ?thesis by (auto simp: sched_def split: option.splits)
  next
    case StopWait
    with a scfg show ?thesis by (auto simp: sched_def split: option.splits)
  next
    case Returned
    with a scfg show ?thesis by (auto simp: sched_def split: option.splits)
  qed
qed

lemma run_sched_steps:
  "run_sched key suppress n s = Some s' \<Longrightarrow> (step key suppress)\<^sup>*\<^sup>* s s'"
proof (induction n arbitrary: s)
  case 0
  then show ?case by simp
next
  case (Suc n)
  then obtain s1 where a: "sched key suppress s = Some s1" and b: "run_sched key suppress n s1 = Some s'"
    by (auto split: option.splits)
  have "step key suppress s s1" using a by (rule sched_step)
  moreover have "(step key suppress)\<^sup>*\<^sup>* s1 s'" using b by (rule Suc.IH)
  ultimately show ?case by (rule converse_rtranclp_into_rtranclp)
qed

lemma settled_step:
  assumes "step key suppress s s'" and z: "settled s"
  shows "settled s'"
proof -
  from z have inv: "run_inv s" and zero: "PendingScrapeConfigs s = 0"
    and ne: "scfgs s \<noteq> [] \<or> r_pc s = Returned" by (simp_all add: settled_def)
  have inv': "run_inv s'" using assms(1) inv by (rule run_inv_step)
  from inv zero have np: "\<forall>c \<in> set (scfgs s). \<not> pending c"
    by (simp add: run_inv_def filter_empty_conv)
  have na: "\<forall>rest. r_pc s \<noteq> Adding rest"
  proof (intro allI notI)
    fix rest assume a: "r_pc s = Adding rest"
    with inv have "\<forall>c \<in> set (scfgs s). scfg_pc c = AwaitInitial" by (auto simp: run_inv_def)
    then have "\<forall>c \<in> set (scfgs s). pending c" by (simp add: pending_def)
    with np have "scfgs s = []" by (cases "scfgs s") auto
    with ne a show False by simp
  qed
  from assms(1) show ?thesis
  proof cases
    case (add name iv rest)
    with na show ?thesis by simp
  next
    case adds_done
    with na show ?thesis by simp
  next
    case (send j ch)
    then show ?thesis using inv' zero by (auto simp: settled_def)
  next
    case (sent_all j)
    then show ?thesis using inv' zero ne by (auto simp: settled_def)
  next
    case (event ev)
    then have "scfgs s' = scfgs s \<and> PendingScrapeConfigs s' = PendingScrapeConfigs s \<and> r_pc s = Waiting"
      by (auto simp: on_event_def split: if_splits runner_event.splits load.splits)
    then show ?thesis using inv' zero ne by (auto simp: settled_def)
  next
    case stopped
    then show ?thesis using inv' zero by (simp add: settled_def)
  next
    case (scfg_other j c')
    then show ?thesis using inv' zero by (auto simp: settled_def)
  next
    case (scfg_decrement j c')
    from scfg_step_pending[OF scfg_decrement(3)] have "pending (scfgs s ! j)" by simp
    with np scfg_decrement(2) show ?thesis by (auto dest: nth_mem)
  qed
qed

lemma settled_steps:
  "(step key suppress)\<^sup>*\<^sup>* s s' \<Longrightarrow> settled s \<Longrightarrow> settled s'"
  by (induction rule: rtranclp_induct) (auto intro: settled_step)

text \<open>
  C8, a counterexample to the equivalence: when a run begins, before the first \<open>scs.add\<close>,
  \<open>PendingScrapeConfigs\<close> reads zero and no category has applied the initial config.
\<close>

theorem pending_zero_counterexample:
  "runScraper_start example_flags ''prometheus.yml'' (Loaded 1 ''scrape_configs: []'') 0
     = Running example_start
   \<and> PendingScrapeConfigs example_start = 0
   \<and> \<not> initial_applied example_start ''static_configs''"
  by (simp add: runScraper_start_def example_start_def example_flags_def initial_applied_def)

text \<open>
  C8, amended. In every state of a run that began with \<open>PendingScrapeConfigs = 0\<close>, the counter
  is the number of \<open>scrapeConfig\<close>s created so far that have not yet done their decrement
  (which follows their first \<open>updateScrapeWork\<close>), so it reads zero if and only if every
  \<open>scrapeConfig\<close> created so far has done it; and once it reads zero with some \<open>scrapeConfig\<close>
  created, it reads zero in every later state of the run.
\<close>

theorem pending_counter:
  assumes "runScraper_start fl path loaded 0 = Running s0"
    and "(step key suppress)\<^sup>*\<^sup>* s0 s"
  shows "PendingScrapeConfigs s = int (length (filter pending (scfgs s)))
       \<and> (PendingScrapeConfigs s = 0 \<longleftrightarrow> (\<forall>c \<in> set (scfgs s). \<not> pending c))
       \<and> (scfgs s \<noteq> [] \<and> PendingScrapeConfigs s = 0 \<longrightarrow>
            (\<forall>s'. (step key suppress)\<^sup>*\<^sup>* s s' \<longrightarrow> PendingScrapeConfigs s' = 0))"
proof -
  have inv: "run_inv s" using assms(2) run_inv_start[OF assms(1)] by (rule run_inv_steps)
  then have a: "PendingScrapeConfigs s = int (length (filter pending (scfgs s)))"
    by (simp add: run_inv_def)
  then have b: "PendingScrapeConfigs s = 0 \<longleftrightarrow> (\<forall>c \<in> set (scfgs s). \<not> pending c)"
    by (simp add: filter_empty_conv)
  have c: "PendingScrapeConfigs s' = 0"
    if "scfgs s \<noteq> []" "PendingScrapeConfigs s = 0" "(step key suppress)\<^sup>*\<^sup>* s s'" for s'
  proof -
    have "settled s" using inv that(1,2) by (simp add: settled_def)
    with that(3) have "settled s'" by (rule settled_steps)
    then show ?thesis by (simp add: settled_def)
  qed
  show ?thesis using a b c by simp
qed

lemma ready_eval:
  "(case run_sched ScrapeURL False 52 example_start of
      None \<Rightarrow> False
    | Some s \<Rightarrow> length (scfgs s) = 10 \<and> PendingScrapeConfigs s = 0)"
  by code_simp

theorem pending_counter_witness:
  "runScraper_start example_flags ''prometheus.yml'' (Loaded 1 ''scrape_configs: []'') 0
     = Running example_start
   \<and> (\<exists>s. (step ScrapeURL False)\<^sup>*\<^sup>* example_start s
          \<and> length (scfgs s) = 10 \<and> PendingScrapeConfigs s = 0
          \<and> (\<forall>c \<in> set (scfgs s). \<not> pending c)
          \<and> (\<forall>s'. (step ScrapeURL False)\<^sup>*\<^sup>* s s' \<longrightarrow> PendingScrapeConfigs s' = 0))"
proof -
  have h: "runScraper_start example_flags ''prometheus.yml'' (Loaded 1 ''scrape_configs: []'') 0
     = Running example_start"
    by (simp add: runScraper_start_def example_start_def example_flags_def)
  obtain s where r: "run_sched ScrapeURL False 52 example_start = Some s"
    and l: "length (scfgs s) = 10" and z: "PendingScrapeConfigs s = 0"
    using ready_eval by (cases "run_sched ScrapeURL False 52 example_start") simp_all
  have reach: "(step ScrapeURL False)\<^sup>*\<^sup>* example_start s" using r by (rule run_sched_steps)
  note t = pending_counter[OF h reach]
  have ne: "scfgs s \<noteq> []" using l by auto
  have np: "\<forall>c \<in> set (scfgs s). \<not> pending c"
    using t[THEN conjunct2, THEN conjunct1] z by simp
  have st: "\<forall>s'. (step ScrapeURL False)\<^sup>*\<^sup>* s s' \<longrightarrow> PendingScrapeConfigs s' = 0"
    using t[THEN conjunct2, THEN conjunct2, THEN mp, OF conjI[OF ne z]] .
  show ?thesis
    by (intro conjI exI[of _ s]) (fact h reach l z np st)+
qed

end
